theory Spec2Isabelle
  imports Complex_Main "HOL-Library.Sublist"
begin

section \<open>Futures and exceptions\<close>

text \<open>
  Both limiters hand every caller an \<^verbatim>\<open>asyncio.Future\<close>.  A future is a shared mutable
  object: the caller awaits it while the worker settles it.  The model keeps all futures in
  an explicit store indexed by the identity of the object.

  An exception raised by an action is seen by the workers only through \<^verbatim>\<open>str(e)\<close> and
  through its optional attribute \<^verbatim>\<open>seconds\<close>; \<open>None\<close> stands for an exception without that
  attribute, and an attribute that is not a number is not modelled.  Timestamps and
  durations are Python floats (or ints) in the source and are idealised here as real
  numbers.
\<close>

type_synonym fut = nat

record py_exception =
  message :: string
  seconds :: "real option"

datatype 'v fstate = Pending | Result 'v | Exception py_exception | Cancelled

type_synonym 'v store = "fut \<Rightarrow> 'v fstate"

text \<open>What \<^verbatim>\<open>await func()\<close> does: return a value, raise an \<^verbatim>\<open>Exception\<close>, or raise
  \<^verbatim>\<open>CancelledError\<close> (which is not an \<^verbatim>\<open>Exception\<close>).\<close>

datatype 'v outcome = Returned 'v | Raised py_exception | CancelledError

datatype error = KeyError | InvalidStateError

text \<open>\<^verbatim>\<open>future.done()\<close>\<close>

fun is_done :: "'v fstate \<Rightarrow> bool" where
  "is_done Pending = False"
| "is_done _ = True"

text \<open>
  \<^verbatim>\<open>if not future.done(): future.set_result(result)\<close>, and likewise for
  \<^verbatim>\<open>set_exception\<close> and \<^verbatim>\<open>cancel\<close>.  The library call on a future that is already done
  raises \<^verbatim>\<open>InvalidStateError\<close>; the source never makes it without the guard.
\<close>

definition set_result :: "fut \<Rightarrow> 'v \<Rightarrow> 'v store \<Rightarrow> 'v store" where
  "set_result future result fs = (if is_done (fs future) then fs else fs(future := Result result))"

definition set_exception :: "fut \<Rightarrow> py_exception \<Rightarrow> 'v store \<Rightarrow> 'v store" where
  "set_exception future e fs = (if is_done (fs future) then fs else fs(future := Exception e))"

definition cancel :: "fut \<Rightarrow> 'v store \<Rightarrow> 'v store" where
  "cancel future fs = (if is_done (fs future) then fs else fs(future := Cancelled))"

text \<open>
  The calls themselves, as \<^verbatim>\<open>asyncio.Future\<close> defines them, for the places where the source
  makes them with no test of its own in the same step: \<^verbatim>\<open>set_result\<close> and
  \<^verbatim>\<open>set_exception\<close> raise \<^verbatim>\<open>InvalidStateError\<close> on a future that is done, \<^verbatim>\<open>cancel\<close>
  returns \<^verbatim>\<open>False\<close> there and changes nothing.
\<close>

datatype 'v call = SetResult fut 'v | SetException fut py_exception | CancelFuture fut

definition run_call :: "'v call \<Rightarrow> 'v store \<Rightarrow> error + 'v store" where
  "run_call c fs =
     (case c of
        SetResult future result \<Rightarrow>
          if is_done (fs future) then Inl InvalidStateError
          else Inr (fs(future := Result result))
      | SetException future e \<Rightarrow>
          if is_done (fs future) then Inl InvalidStateError
          else Inr (fs(future := Exception e))
      | CancelFuture future \<Rightarrow> Inr (cancel future fs))"

section \<open>The asyncio limiter (\<^verbatim>\<open>messaging/limiter.py\<close>)\<close>

subsection \<open>Classification of an exception as a flood wait\<close>

text \<open>
  \<^verbatim>\<open>error_msg = str(e).lower()\<close> and \<^verbatim>\<open>"flood" in error_msg or "wait" in error_msg\<close>.
  Strings are byte lists; only the ASCII capitals are folded.  No byte of a non-ASCII
  character equals an ASCII letter, and no non-ASCII character lowers to a string in which
  one of the two words appears where it did not before, so the test is the source's.
\<close>

definition lower_char :: "char \<Rightarrow> char" where
  "lower_char c =
     (let n = (of_char c :: nat) in if 65 \<le> n \<and> n \<le> 90 then char_of (n + 32) else c)"

definition lower :: "string \<Rightarrow> string" where
  "lower s = map lower_char s"

fun starts_with :: "string \<Rightarrow> string \<Rightarrow> bool" where
  "starts_with [] s = True"
| "starts_with (p # ps) [] = False"
| "starts_with (p # ps) (c # cs) = (p = c \<and> starts_with ps cs)"

fun contains :: "string \<Rightarrow> string \<Rightarrow> bool" where
  "contains sub [] = (sub = [])"
| "contains sub (c # cs) = (starts_with sub (c # cs) \<or> contains sub cs)"

definition is_flood :: "py_exception \<Rightarrow> bool" where
  "is_flood e =
     (let error_msg = lower (message e)
      in contains ''flood'' error_msg \<or> contains ''wait'' error_msg)"

text \<open>
  \<^verbatim>\<open>seconds = 30\<close>, replaced by \<^verbatim>\<open>e.seconds\<close> when the exception has that attribute.
\<close>

definition flood_seconds :: "py_exception \<Rightarrow> real" where
  "flood_seconds e = (case seconds e of Some s \<Rightarrow> s | None \<Rightarrow> 30)"

subsection \<open>State\<close>

text \<open>
  The fields of \<^verbatim>\<open>GlobalRateLimiter\<close> that the worker and the admission path touch, the
  store of futures, and the worker's own local variables: \<open>current\<close> is the item between
  its removal from the queue and the end of its execution, \<open>running\<close> is false once the
  loop has been left through \<^verbatim>\<open>break\<close>.  \<open>calls\<close> is a log of every \<^verbatim>\<open>await func()\<close>,
  kept only to state properties about invocations.
\<close>

record ('f, 'v) limiter =
  queue_list :: "string list"
  queue_map :: "string \<rightharpoonup> ('f \<times> fut)"
  paused_until :: real
  futures :: "'v store"
  next_future :: fut
  current :: "(string \<times> 'f \<times> fut) option"
  running :: bool
  calls :: "(string \<times> 'f) list"

definition init :: "('f, 'v) limiter" where
  "init = \<lparr> queue_list = [], queue_map = Map.empty, paused_until = 0,
            futures = (\<lambda>_. Pending), next_future = 0, current = None,
            running = True, calls = [] \<rparr>"

subsection \<open>Admission\<close>

text \<open>\<^verbatim>\<open>_enqueue_internal(func, future, dedup_key, front)\<close>\<close>

definition enqueue_internal ::
  "'f \<Rightarrow> fut \<Rightarrow> string \<Rightarrow> bool \<Rightarrow> ('f, 'v) limiter \<Rightarrow> ('f, 'v) limiter" where
  "enqueue_internal func future dedup_key front st =
     (case queue_map st dedup_key of
        Some (old_func, old_future) \<Rightarrow>
          st\<lparr>queue_map := (queue_map st)(dedup_key \<mapsto> (func, old_future))\<rparr>
      | None \<Rightarrow>
          st\<lparr>queue_map := (queue_map st)(dedup_key \<mapsto> (func, future)),
             queue_list := (if front then dedup_key # queue_list st
                            else queue_list st @ [dedup_key])\<rparr>)"

text \<open>
  \<^verbatim>\<open>enqueue(func, dedup_key)\<close> up to its final \<^verbatim>\<open>await future\<close>: a fresh future is created
  and the item admitted at normal priority.  The result is the future the caller then
  awaits.  \<^verbatim>\<open>fire_and_forget\<close> admits in the same way and awaits nothing.  The key
  generated for a call without \<^verbatim>\<open>dedup_key\<close> is passed in like any other key.
\<close>

definition create_future :: "('f, 'v) limiter \<Rightarrow> fut \<times> ('f, 'v) limiter" where
  "create_future st =
     (next_future st,
      st\<lparr>futures := (futures st)(next_future st := Pending),
         next_future := Suc (next_future st)\<rparr>)"

definition enqueue :: "'f \<Rightarrow> string \<Rightarrow> ('f, 'v) limiter \<Rightarrow> fut \<times> ('f, 'v) limiter" where
  "enqueue func dedup_key st =
     (let (future, st1) = create_future st
      in (future, enqueue_internal func future dedup_key False st1))"

subsection \<open>The worker\<close>

text \<open>
  One pass of the loop of \<^verbatim>\<open>_worker\<close> is split where the coroutine can be suspended for
  long: \<open>worker_pop\<close> is the block under the condition (lines 72 to 77), \<open>pause_wait\<close> the
  sleep of the pause check (lines 80 to 86), and \<open>worker_execute\<close> the block under the
  limiter once \<^verbatim>\<open>await func()\<close> has finished with the given outcome (lines 89 to 117).

  The \<open>now\<close> of \<open>worker_execute\<close> is the clock read at line 107; without a current
  item there is nothing to execute and the state stays as it is.

  \<open>worker_pop\<close> with an empty list waits on the condition and changes nothing.
  \<^verbatim>\<open>self._queue_map.pop(dedup_key)\<close> raises \<^verbatim>\<open>KeyError\<close> for a key that is not in the map;
  the key has then already left the list.
\<close>

datatype pop_status = Waiting | Popped | Failed error

definition worker_pop :: "('f, 'v) limiter \<Rightarrow> pop_status \<times> ('f, 'v) limiter" where
  "worker_pop st =
     (case queue_list st of
        [] \<Rightarrow> (Waiting, st)
      | dedup_key # rest \<Rightarrow>
          (case queue_map st dedup_key of
             None \<Rightarrow> (Failed KeyError, st\<lparr>queue_list := rest\<rparr>)
           | Some (func, future) \<Rightarrow>
               (Popped, st\<lparr>queue_list := rest,
                           queue_map := (queue_map st)(dedup_key := None),
                           current := Some (dedup_key, func, future)\<rparr>)))"

definition pause_wait :: "real \<Rightarrow> ('f, 'v) limiter \<Rightarrow> real" where
  "pause_wait now st = (if paused_until st > now then paused_until st - now else 0)"

definition worker_execute :: "'v outcome \<Rightarrow> real \<Rightarrow> ('f, 'v) limiter \<Rightarrow> ('f, 'v) limiter" where
  "worker_execute out now st =
     (case current st of
        None \<Rightarrow> st
      | Some (dedup_key, func, future) \<Rightarrow>
          (let st1 = st\<lparr>current := None, calls := calls st @ [(dedup_key, func)]\<rparr>
           in case out of
                Returned result \<Rightarrow> st1\<lparr>futures := set_result future result (futures st1)\<rparr>
              | Raised e \<Rightarrow>
                  if is_flood e
                  then enqueue_internal func future dedup_key True
                         (st1\<lparr>paused_until := now + flood_seconds e\<rparr>)
                  else st1\<lparr>futures := set_exception future e (futures st1)\<rparr>
              | CancelledError \<Rightarrow> st1\<lparr>running := False\<rparr>))"

subsection \<open>Schedules\<close>

text \<open>
  The coroutines interleave only at their \<^verbatim>\<open>await\<close>s, and none of the blocks above
  contains one that can suspend (the condition's lock is never held across a suspension),
  so every run of the program is a sequence of these events: a caller submits, the
  worker pops, the popped action finishes, a caller cancels its future.  The worker is
  serial: it pops only when it holds no item.
\<close>

datatype ('f, 'v) event =
    Submit string 'f
  | Pop
  | Finish "'v outcome" real
  | Cancel fut

fun step :: "('f, 'v) event \<Rightarrow> ('f, 'v) limiter \<Rightarrow> ('f, 'v) limiter" where
  "step (Submit dedup_key func) st = snd (enqueue func dedup_key st)"
| "step Pop st = (if running st \<and> current st = None then snd (worker_pop st) else st)"
| "step (Finish out now) st = worker_execute out now st"
| "step (Cancel future) st = st\<lparr>futures := cancel future (futures st)\<rparr>"

fun run :: "('f, 'v) event list \<Rightarrow> ('f, 'v) limiter \<Rightarrow> ('f, 'v) limiter" where
  "run [] st = st"
| "run (e # es) st = run es (step e st)"

subsection \<open>The queue invariant\<close>

definition queue_inv :: "('f, 'v) limiter \<Rightarrow> bool" where
  "queue_inv st = (set (queue_list st) = dom (queue_map st) \<and> distinct (queue_list st))"

subsection \<open>Observations on a state and on a schedule\<close>

text \<open>The invocations logged under one key.\<close>

definition key_calls :: "string \<Rightarrow> ('f, 'v) limiter \<Rightarrow> (string \<times> 'f) list" where
  "key_calls k st = filter (\<lambda>c. fst c = k) (calls st)"

text \<open>The keys of the actions started since the log had length \<open>n\<close>, in the order of their start.\<close>

definition started_since :: "nat \<Rightarrow> ('f, 'v) limiter \<Rightarrow> string list" where
  "started_since n st = map fst (drop n (calls st))"

text \<open>
  The work under key \<open>k\<close> that the limiter still holds: the item the worker is executing,
  then the item waiting in the queue.
\<close>

definition executing :: "string \<Rightarrow> ('f, 'v) limiter \<Rightarrow> (string \<times> 'f) list" where
  "executing k st =
     (case current st of
        Some (k', f, h) \<Rightarrow> if k' = k then [(k, f)] else []
      | None \<Rightarrow> [])"

definition held :: "string \<Rightarrow> ('f, 'v) limiter \<Rightarrow> (string \<times> 'f) list" where
  "held k st =
     executing k st @ (case queue_map st k of Some (f, h) \<Rightarrow> [(k, f)] | None \<Rightarrow> [])"

text \<open>
  The order in which two keys \<open>a\<close> and \<open>b\<close> are served, counted from the point where the
  log had length \<open>n\<close>: either \<open>a\<close> has started before any start of \<open>b\<close>, or \<open>b\<close> has not
  started and is not being executed, and \<open>a\<close> is being executed or stands in the queue
  before every occurrence of \<open>b\<close>.
\<close>

definition served_first :: "string \<Rightarrow> string \<Rightarrow> nat \<Rightarrow> ('f, 'v) limiter \<Rightarrow> bool" where
  "served_first a b n st =
     (a \<in> set (takeWhile (\<lambda>x. x \<noteq> b) (started_since n st))
      \<or> (b \<notin> set (started_since n st)
         \<and> (\<forall>f h. current st \<noteq> Some (b, f, h))
         \<and> ((\<exists>f h. current st = Some (a, f, h))
              \<or> a \<in> set (takeWhile (\<lambda>x. x \<noteq> b) (queue_list st)))))"

fun is_flood_event :: "('f, 'v) event \<Rightarrow> bool" where
  "is_flood_event (Finish (Raised x) now) = is_flood x"
| "is_flood_event _ = False"

text \<open>
  The rate violations among the invocations under key \<open>k\<close> in a schedule: the outcomes that
  are flood waits and arrive while the worker executes an item under \<open>k\<close>.
\<close>

fun key_floods :: "string \<Rightarrow> ('f, 'v) event list \<Rightarrow> ('f, 'v) limiter \<Rightarrow> nat" where
  "key_floods k [] st = 0"
| "key_floods k (e # es) st =
     (if is_flood_event e \<and> executing k st \<noteq> [] then 1 else 0) + key_floods k es (step e st)"





fun is_submit_of :: "string \<Rightarrow> ('f, 'v) event \<Rightarrow> bool" where
  "is_submit_of k (Submit k' f) = (k' = k)"
| "is_submit_of k _ = False"

fun is_cancel_of :: "fut \<Rightarrow> ('f, 'v) event \<Rightarrow> bool" where
  "is_cancel_of h (Cancel h') = (h' = h)"
| "is_cancel_of h _ = False"

section \<open>The thread-based limiter (\<^verbatim>\<open>messaging/rate_limiter.py\<close>)\<close>

text \<open>
  The queue is a \<^verbatim>\<open>RateLimitQueue\<close>, a FIFO queue whose \<^verbatim>\<open>get\<close> also waits for the rate
  budget; its items are \<^verbatim>\<open>(func, future, loop)\<close>, of which the event loop is left out.
  \<open>rl_current\<close> is the item the worker thread has taken and is executing, \<open>stopped\<close> the
  stop event, \<open>rl_calls\<close> the log of invocations.  The worker thread never touches a
  future itself: it hands the call to the event loop with \<^verbatim>\<open>call_soon_threadsafe\<close>.
  \<open>loop_calls\<close> are the calls handed over and not yet run, in the order of their arrival,
  and \<open>loop_errors\<close> the exceptions that calls have raised inside the loop.
\<close>

record ('f, 'v) rate_limiter =
  queue :: "('f \<times> fut) list"
  pause_until :: real
  rl_futures :: "'v store"
  rl_next_future :: fut
  rl_current :: "('f \<times> fut) option"
  stopped :: bool
  rl_calls :: "'f list"
  loop_calls :: "'v call list"
  loop_errors :: "error list"

definition rl_init :: "('f, 'v) rate_limiter" where
  "rl_init = \<lparr> queue = [], pause_until = 0, rl_futures = (\<lambda>_. Pending),
               rl_next_future = 0, rl_current = None, stopped = False, rl_calls = [],
               loop_calls = [], loop_errors = [] \<rparr>"

text \<open>\<^verbatim>\<open>execute(func)\<close> up to its final \<^verbatim>\<open>await future\<close>.\<close>

definition rl_execute :: "'f \<Rightarrow> ('f, 'v) rate_limiter \<Rightarrow> fut \<times> ('f, 'v) rate_limiter" where
  "rl_execute func st =
     (let future = rl_next_future st
      in (future,
          st\<lparr>rl_futures := (rl_futures st)(future := Pending),
             rl_next_future := Suc future,
             queue := queue st @ [(func, future)]\<rparr>))"

text \<open>
  The first half of one pass of \<^verbatim>\<open>_worker\<close> (lines 51 to 71), with the clock read at
  line 55: a set stop event ends the loop, a pause still running makes the thread sleep and
  start over, an empty queue blocks, and an item whose future is already done is dropped.
\<close>

definition rl_worker_get :: "real \<Rightarrow> ('f, 'v) rate_limiter \<Rightarrow> ('f, 'v) rate_limiter" where
  "rl_worker_get now st =
     (if stopped st then st
      else let pause_wait = pause_until st - now
           in if pause_wait > 0 then st
              else case queue st of
                     [] \<Rightarrow> st
                   | (task_fn, future) # rest \<Rightarrow>
                       if is_done (rl_futures st future) then st\<lparr>queue := rest\<rparr>
                       else st\<lparr>queue := rest, rl_current := Some (task_fn, future)\<rparr>)"

text \<open>
  The second half (lines 79 to 103), once the task has finished with the given outcome;
  the clock is read at line 97.  \<^verbatim>\<open>if wait_seconds:\<close> holds for a \<^verbatim>\<open>seconds\<close> attribute
  that is present and not zero.  The worker thread tests \<^verbatim>\<open>future.done()\<close> and, when the
  future is not done, hands \<^verbatim>\<open>future.set_result\<close>, \<^verbatim>\<open>future.set_exception\<close> or
  \<^verbatim>\<open>future.cancel\<close> to the event loop.
\<close>

definition rl_worker_finish ::
  "'v outcome \<Rightarrow> real \<Rightarrow> ('f, 'v) rate_limiter \<Rightarrow> ('f, 'v) rate_limiter" where
  "rl_worker_finish out now st =
     (case rl_current st of
        None \<Rightarrow> st
      | Some (task_fn, future) \<Rightarrow>
          (let st1 = st\<lparr>rl_current := None, rl_calls := rl_calls st @ [task_fn]\<rparr>
           in case out of
                Returned result \<Rightarrow>
                  if is_done (rl_futures st1 future) then st1
                  else st1\<lparr>loop_calls := loop_calls st1 @ [SetResult future result]\<rparr>
              | CancelledError \<Rightarrow>
                  if is_done (rl_futures st1 future) then st1
                  else st1\<lparr>loop_calls := loop_calls st1 @ [CancelFuture future]\<rparr>
              | Raised e \<Rightarrow>
                  (let st2 = (case seconds e of
                                Some wait_seconds \<Rightarrow>
                                  if wait_seconds \<noteq> 0
                                  then st1\<lparr>pause_until :=
                                             max (pause_until st1) (now + wait_seconds)\<rparr>
                                  else st1
                              | None \<Rightarrow> st1)
                   in if is_done (rl_futures st2 future) then st2
                      else st2\<lparr>loop_calls := loop_calls st2 @ [SetException future e]\<rparr>)))"

text \<open>
  The event loop runs the oldest call handed to it.  A call that raises leaves the futures
  as they are; the loop passes the exception to its exception handler and goes on.
\<close>

definition rl_loop_step :: "('f, 'v) rate_limiter \<Rightarrow> ('f, 'v) rate_limiter" where
  "rl_loop_step st =
     (case loop_calls st of
        [] \<Rightarrow> st
      | c # cs \<Rightarrow>
          (case run_call c (rl_futures st) of
             Inl err \<Rightarrow> st\<lparr>loop_calls := cs, loop_errors := loop_errors st @ [err]\<rparr>
           | Inr fs \<Rightarrow> st\<lparr>loop_calls := cs, rl_futures := fs\<rparr>))"

text \<open>
  Schedules of the thread-based limiter: a caller executes, the worker thread takes an
  item at a reading of the clock, the task it runs finishes at a later reading, the event
  loop runs a call handed to it, a caller cancels its future.  The worker takes an item
  only when it holds none.  The clock is \<^verbatim>\<open>time.time()\<close>, and nothing is supposed about
  the readings of one schedule.
\<close>

datatype ('f, 'v) rl_event =
    Execute 'f
  | Get real
  | Report "'v outcome" real
  | LoopCall
  | CancelCaller fut

fun rl_step :: "('f, 'v) rl_event \<Rightarrow> ('f, 'v) rate_limiter \<Rightarrow> ('f, 'v) rate_limiter" where
  "rl_step (Execute func) st = snd (rl_execute func st)"
| "rl_step (Get now) st = (if rl_current st = None then rl_worker_get now st else st)"
| "rl_step (Report out now) st = rl_worker_finish out now st"
| "rl_step LoopCall st = rl_loop_step st"
| "rl_step (CancelCaller future) st = st\<lparr>rl_futures := cancel future (rl_futures st)\<rparr>"

fun rl_run :: "('f, 'v) rl_event list \<Rightarrow> ('f, 'v) rate_limiter \<Rightarrow> ('f, 'v) rate_limiter" where
  "rl_run [] st = st"
| "rl_run (e # es) st = rl_run es (rl_step e st)"

section \<open>Properties\<close>

subsection \<open>Unfolding the operations case by case\<close>

lemma enqueue_internal_new:
  "queue_map st k = None \<Longrightarrow>
   enqueue_internal f h k front st =
     st\<lparr>queue_map := (queue_map st)(k \<mapsto> (f, h)),
        queue_list := (if front then k # queue_list st else queue_list st @ [k])\<rparr>"
  by (simp add: enqueue_internal_def)

lemma enqueue_internal_compact:
  "queue_map st k = Some (f0, h0) \<Longrightarrow>
   enqueue_internal f h k front st = st\<lparr>queue_map := (queue_map st)(k \<mapsto> (f, h0))\<rparr>"
  by (simp add: enqueue_internal_def)

lemma rl_worker_finish_idle:
  "rl_current st = None \<Longrightarrow> rl_worker_finish out now st = st"
  by (simp add: rl_worker_finish_def)

lemma rl_worker_finish_pause:
  assumes "rl_current st = Some (tf, h)"
  shows "seconds e = Some w \<Longrightarrow> w \<noteq> 0 \<Longrightarrow>
         pause_until (rl_worker_finish (Raised e) now st) = max (pause_until st) (now + w)"
    and "seconds e = None \<or> seconds e = Some 0 \<Longrightarrow>
         pause_until (rl_worker_finish (Raised e) now st) = pause_until st"
    and "pause_until (rl_worker_finish (Returned v) now st) = pause_until st"
    and "pause_until (rl_worker_finish CancelledError now st) = pause_until st"
  using assms by (auto simp: rl_worker_finish_def Let_def)

lemma rl_worker_finish_fields:
  assumes "rl_current st = Some (tf, h)"
  shows "rl_futures (rl_worker_finish out now st) = rl_futures st"
    and "queue (rl_worker_finish out now st) = queue st"
    and "rl_calls (rl_worker_finish out now st) = rl_calls st @ [tf]"
    and "rl_current (rl_worker_finish out now st) = None"
    and "stopped (rl_worker_finish out now st) = stopped st"
    and "loop_errors (rl_worker_finish out now st) = loop_errors st"
  using assms
  by (auto simp: rl_worker_finish_def Let_def split: outcome.splits option.splits)

lemma rl_worker_finish_hands_over:
  assumes "rl_current st = Some (tf, h)" and "\<not> is_done (rl_futures st h)"
  shows "loop_calls (rl_worker_finish (Returned v) now st) = loop_calls st @ [SetResult h v]"
    and "loop_calls (rl_worker_finish (Raised e) now st) = loop_calls st @ [SetException h e]"
    and "loop_calls (rl_worker_finish CancelledError now st) = loop_calls st @ [CancelFuture h]"
  using assms
  by (auto simp: rl_worker_finish_def Let_def split: option.splits)

lemma rl_worker_finish_skips:
  assumes "rl_current st = Some (tf, h)" and "is_done (rl_futures st h)"
  shows "loop_calls (rl_worker_finish out now st) = loop_calls st"
  using assms
  by (auto simp: rl_worker_finish_def Let_def split: outcome.splits option.splits)

subsection \<open>Preservation of the queue invariant\<close>

lemma queue_inv_init: "queue_inv init"
  by (simp add: queue_inv_def init_def)

lemma queue_inv_enqueue_internal:
  assumes "queue_inv st"
  shows "queue_inv (enqueue_internal func future dedup_key front st)"
proof (cases "queue_map st dedup_key")
  case None
  then have "dedup_key \<notin> set (queue_list st)"
    using assms by (auto simp: queue_inv_def)
  with None assms show ?thesis
    by (auto simp: queue_inv_def enqueue_internal_def)
next
  case (Some a)
  then have "dedup_key \<in> dom (queue_map st)" by auto
  with Some assms show ?thesis
    by (cases a) (auto simp: queue_inv_def enqueue_internal_def)
qed

lemma queue_inv_worker_pop:
  assumes "queue_inv st"
  shows "queue_inv (snd (worker_pop st))"
proof (cases "queue_list st")
  case Nil
  with assms show ?thesis by (simp add: worker_pop_def)
next
  case (Cons k rest)
  with assms have k: "k \<in> dom (queue_map st)" and nk: "k \<notin> set rest"
    and eq: "insert k (set rest) = dom (queue_map st)" and d: "distinct rest"
    by (auto simp: queue_inv_def)
  from k obtain func future where m: "queue_map st k = Some (func, future)" by auto
  have "set rest = dom ((queue_map st)(k := None))"
    using eq nk by auto
  with Cons m d show ?thesis
    by (simp add: worker_pop_def queue_inv_def)
qed

lemma worker_execute_idle:
  "current st = None \<Longrightarrow> worker_execute out now st = st"
  by (simp add: worker_execute_def)

lemma worker_execute_Returned:
  "current st = Some (k, f, h) \<Longrightarrow>
   worker_execute (Returned v) now st =
     st\<lparr>current := None, calls := calls st @ [(k, f)],
        futures := set_result h v (futures st)\<rparr>"
  by (simp add: worker_execute_def)

lemma worker_execute_flood:
  "current st = Some (k, f, h) \<Longrightarrow> is_flood x \<Longrightarrow>
   worker_execute (Raised x) now st =
     enqueue_internal f h k True
       (st\<lparr>current := None, calls := calls st @ [(k, f)],
           paused_until := now + flood_seconds x\<rparr>)"
  by (simp add: worker_execute_def)

lemma worker_execute_error:
  "current st = Some (k, f, h) \<Longrightarrow> \<not> is_flood x \<Longrightarrow>
   worker_execute (Raised x) now st =
     st\<lparr>current := None, calls := calls st @ [(k, f)],
        futures := set_exception h x (futures st)\<rparr>"
  by (simp add: worker_execute_def)

lemma worker_execute_CancelledError:
  "current st = Some (k, f, h) \<Longrightarrow>
   worker_execute CancelledError now st =
     st\<lparr>current := None, calls := calls st @ [(k, f)], running := False\<rparr>"
  by (simp add: worker_execute_def)

lemma queue_inv_step:
  assumes "queue_inv st"
  shows "queue_inv (step e st)"
proof (cases e)
  case (Submit k f)
  have "queue_inv (snd (create_future st))"
    using assms by (simp add: queue_inv_def create_future_def)
  with Submit show ?thesis
    by (simp add: enqueue_def split_beta queue_inv_enqueue_internal)
next
  case Pop
  with assms show ?thesis by (simp add: queue_inv_worker_pop)
next
  case (Finish out now)
  show ?thesis
  proof (cases "current st")
    case None
    with Finish assms show ?thesis by (simp add: worker_execute_idle)
  next
    case (Some item)
    obtain k f h where item: "item = (k, f, h)" by (cases item)
    note cur = Some [unfolded item]
    show ?thesis
    proof (cases out)
      case (Returned v)
      with Finish assms show ?thesis
        by (simp add: worker_execute_Returned [OF cur] queue_inv_def)
    next
      case (Raised x)
      show ?thesis
      proof (cases "is_flood x")
        case True
        have "queue_inv (st\<lparr>current := None, calls := calls st @ [(k, f)],
                            paused_until := now + flood_seconds x\<rparr>)"
          using assms by (simp add: queue_inv_def)
        then show ?thesis
          unfolding Finish Raised step.simps worker_execute_flood [OF cur True]
          by (rule queue_inv_enqueue_internal)
      next
        case False
        with Raised Finish assms show ?thesis
          by (simp add: worker_execute_error [OF cur] queue_inv_def)
      qed
    next
      case CancelledError
      with Finish assms show ?thesis
        by (simp add: worker_execute_CancelledError [OF cur] queue_inv_def)
    qed
  qed
next
  case (Cancel h)
  with assms show ?thesis by (simp add: queue_inv_def)
qed

lemma queue_inv_run: "queue_inv st \<Longrightarrow> queue_inv (run evs st)"
  by (induction evs arbitrary: st) (simp_all add: queue_inv_step)

text \<open>
  Claim C6.  The order list and the pending map always hold the same keys, and no key is
  twice in the list.  The invariant holds at the start and after every admission, every
  pop and every other event.  An admission of a pending key (compaction) leaves the list
  and the key set as they are; an admission of a new key adds it to both; a pop removes
  the first key of the list from both.
\<close>

theorem queue_state_invariant:
  assumes "queue_inv st"
  shows "queue_inv (enqueue_internal func future k front st)
       \<and> (k \<in> dom (queue_map st) \<longrightarrow>
            queue_list (enqueue_internal func future k front st) = queue_list st
          \<and> dom (queue_map (enqueue_internal func future k front st)) = dom (queue_map st))
       \<and> (k \<notin> dom (queue_map st) \<longrightarrow>
            set (queue_list (enqueue_internal func future k front st)) = insert k (set (queue_list st))
          \<and> dom (queue_map (enqueue_internal func future k front st)) = insert k (dom (queue_map st)))
       \<and> queue_inv (snd (worker_pop st))
       \<and> (\<forall>k' rest. queue_list st = k' # rest \<longrightarrow>
            fst (worker_pop st) = Popped
          \<and> queue_list (snd (worker_pop st)) = rest
          \<and> k' \<notin> set (queue_list (snd (worker_pop st)))
          \<and> k' \<notin> dom (queue_map (snd (worker_pop st))))
       \<and> queue_inv (run evs st)
       \<and> queue_inv (run evs (init :: ('f, 'v) limiter))"
proof -
  have compact: "queue_list (enqueue_internal func future k front st) = queue_list st
      \<and> dom (queue_map (enqueue_internal func future k front st)) = dom (queue_map st)"
    if "k \<in> dom (queue_map st)"
  proof -
    from that obtain f0 h0 where "queue_map st k = Some (f0, h0)" by auto
    then show ?thesis
      by (auto simp: enqueue_internal_compact split: if_splits)
  qed
  have fresh: "set (queue_list (enqueue_internal func future k front st)) = insert k (set (queue_list st))
      \<and> dom (queue_map (enqueue_internal func future k front st)) = insert k (dom (queue_map st))"
    if "k \<notin> dom (queue_map st)"
  proof -
    from that have "queue_map st k = None" by auto
    then show ?thesis
      by (auto simp: enqueue_internal_new)
  qed
  have pop: "fst (worker_pop st) = Popped
          \<and> queue_list (snd (worker_pop st)) = rest
          \<and> k' \<notin> set (queue_list (snd (worker_pop st)))
          \<and> k' \<notin> dom (queue_map (snd (worker_pop st)))"
    if ql: "queue_list st = k' # rest" for k' rest
  proof -
    from assms ql have "k' \<in> dom (queue_map st)" and nk: "k' \<notin> set rest"
      by (auto simp: queue_inv_def)
    then obtain f h where "queue_map st k' = Some (f, h)" by auto
    with ql nk show ?thesis by (simp add: worker_pop_def)
  qed
  have c1: "queue_inv (enqueue_internal func future k front st)"
    by (rule queue_inv_enqueue_internal [OF assms])
  have c2: "k \<in> dom (queue_map st) \<longrightarrow>
            queue_list (enqueue_internal func future k front st) = queue_list st
          \<and> dom (queue_map (enqueue_internal func future k front st)) = dom (queue_map st)"
    using compact by (rule impI)
  have c3: "k \<notin> dom (queue_map st) \<longrightarrow>
            set (queue_list (enqueue_internal func future k front st)) = insert k (set (queue_list st))
          \<and> dom (queue_map (enqueue_internal func future k front st)) = insert k (dom (queue_map st))"
    using fresh by (rule impI)
  have c4: "queue_inv (snd (worker_pop st))"
    by (rule queue_inv_worker_pop [OF assms])
  have c5: "\<forall>k' rest. queue_list st = k' # rest \<longrightarrow>
            fst (worker_pop st) = Popped
          \<and> queue_list (snd (worker_pop st)) = rest
          \<and> k' \<notin> set (queue_list (snd (worker_pop st)))
          \<and> k' \<notin> dom (queue_map (snd (worker_pop st)))"
    using pop by (intro allI impI)
  have c6: "queue_inv (run evs st)"
    by (rule queue_inv_run [OF assms])
  have c7: "queue_inv (run evs (init :: ('f, 'v) limiter))"
    by (rule queue_inv_run [OF queue_inv_init])
  show ?thesis
    by (intro conjI; fact)
qed

theorem queue_state_invariant_witness:
  "queue_inv (snd (enqueue (1::nat) ''a'' (init :: (nat, nat) limiter)))
   \<and> queue_list (enqueue_internal 2 7 ''a'' False (snd (enqueue (1::nat) ''a'' (init :: (nat, nat) limiter)))) = [''a'']
   \<and> set (queue_list (enqueue_internal 2 7 ''b'' True (snd (enqueue (1::nat) ''a'' (init :: (nat, nat) limiter)))))
       = {''a'', ''b''}
   \<and> queue_inv (snd (worker_pop (snd (enqueue (1::nat) ''a'' (init :: (nat, nat) limiter)))))
   \<and> queue_list (snd (worker_pop (snd (enqueue (1::nat) ''a'' (init :: (nat, nat) limiter))))) = []"
proof -
  let ?s = "snd (enqueue (1::nat) ''a'' (init :: (nat, nat) limiter))"
  have s: "?s = \<lparr> queue_list = [''a''], queue_map = [''a'' \<mapsto> (1, 0)], paused_until = 0,
            futures = (\<lambda>_. Pending), next_future = 1, current = None,
            running = True, calls = [] \<rparr>"
    by (simp add: enqueue_def create_future_def enqueue_internal_def init_def fun_eq_iff)
  have inv: "queue_inv ?s"
    unfolding s by (simp add: queue_inv_def)
  have ql: "queue_list ?s = [''a'']"
    unfolding s by simp
  have d: "''a'' \<in> dom (queue_map ?s)"
    unfolding s by simp
  note t = queue_state_invariant [OF inv, of 2 7 "''a''" False "[]"]
  from t have a: "queue_list (enqueue_internal 2 7 ''a'' False ?s) = queue_list ?s"
    using d by blast
  from t have p: "queue_inv (snd (worker_pop ?s))"
    by blast
  from t ql have q: "queue_list (snd (worker_pop ?s)) = []"
    by blast
  have nd: "''b'' \<notin> dom (queue_map ?s)"
    unfolding s by simp
  from queue_state_invariant [OF inv, of 2 7 "''b''" True "[]"] nd
  have "set (queue_list (enqueue_internal 2 7 ''b'' True ?s)) = insert ''b'' (set (queue_list ?s))"
    by blast
  then have b: "set (queue_list (enqueue_internal 2 7 ''b'' True ?s)) = {''a'', ''b''}"
    unfolding ql by auto
  from inv a ql b p q show ?thesis by simp
qed

subsection \<open>Fields left alone, futures already done\<close>

lemma enqueue_internal_fields:
  "paused_until (enqueue_internal f h k front st) = paused_until st"
  "futures (enqueue_internal f h k front st) = futures st"
  "next_future (enqueue_internal f h k front st) = next_future st"
  "current (enqueue_internal f h k front st) = current st"
  "running (enqueue_internal f h k front st) = running st"
  "calls (enqueue_internal f h k front st) = calls st"
  by (simp_all add: enqueue_internal_def split: option.splits)

lemma enqueue_fields:
  "paused_until (snd (enqueue f k st)) = paused_until st"
  "futures (snd (enqueue f k st)) = (futures st)(next_future st := Pending)"
  "next_future (snd (enqueue f k st)) = Suc (next_future st)"
  "current (snd (enqueue f k st)) = current st"
  "running (snd (enqueue f k st)) = running st"
  "calls (snd (enqueue f k st)) = calls st"
  "fst (enqueue f k st) = next_future st"
  by (simp_all add: enqueue_def create_future_def enqueue_internal_fields)

lemma worker_pop_fields:
  "paused_until (snd (worker_pop st)) = paused_until st"
  "futures (snd (worker_pop st)) = futures st"
  "next_future (snd (worker_pop st)) = next_future st"
  "running (snd (worker_pop st)) = running st"
  "calls (snd (worker_pop st)) = calls st"
  by (simp_all add: worker_pop_def split: list.splits option.splits)

lemma settle_done:
  "is_done (fs h) \<Longrightarrow> set_result h v fs = fs"
  "is_done (fs h) \<Longrightarrow> set_exception h e fs = fs"
  "is_done (fs h) \<Longrightarrow> cancel h fs = fs"
  by (simp_all add: set_result_def set_exception_def cancel_def)

lemma settle_other:
  "h' \<noteq> h \<Longrightarrow> set_result h v fs h' = fs h'"
  "h' \<noteq> h \<Longrightarrow> set_exception h e fs h' = fs h'"
  "h' \<noteq> h \<Longrightarrow> cancel h fs h' = fs h'"
  by (simp_all add: set_result_def set_exception_def cancel_def)

lemma settle_is_done:
  "is_done (set_result h v fs h)"
  "is_done (set_exception h e fs h)"
  "is_done (cancel h fs h)"
  by (simp_all add: set_result_def set_exception_def cancel_def)

lemma settle_keeps_done:
  "is_done (fs h') \<Longrightarrow> set_result h v fs h' = fs h'"
  "is_done (fs h') \<Longrightarrow> set_exception h e fs h' = fs h'"
  "is_done (fs h') \<Longrightarrow> cancel h fs h' = fs h'"
  by (auto simp: set_result_def set_exception_def cancel_def)

lemma worker_execute_keeps_done:
  assumes "is_done (futures st h')"
  shows "futures (worker_execute out now st) h' = futures st h'"
proof (cases "current st")
  case None
  then show ?thesis by (simp add: worker_execute_idle)
next
  case (Some item)
  obtain k f h where cur: "current st = Some (k, f, h)"
    using Some by (cases item) simp
  show ?thesis
  proof (cases out)
    case (Returned v)
    with assms show ?thesis
      by (simp add: worker_execute_Returned [OF cur] settle_keeps_done)
  next
    case (Raised x)
    with assms show ?thesis
      by (cases "is_flood x")
         (simp_all add: worker_execute_flood [OF cur] worker_execute_error [OF cur]
            enqueue_internal_fields settle_keeps_done)
  next
    case CancelledError
    then show ?thesis
      by (simp add: worker_execute_CancelledError [OF cur])
  qed
qed

lemma worker_execute_next_future:
  "next_future (worker_execute out now st) = next_future st"
  by (simp add: worker_execute_def enqueue_internal_fields Let_def
      split: option.splits outcome.splits)

lemma step_keeps_done:
  assumes "is_done (futures st h)" and "h < next_future st"
  shows "futures (step e st) h = futures st h \<and> h < next_future (step e st)"
proof (cases e)
  case (Submit k f)
  with assms show ?thesis by (simp add: enqueue_fields)
next
  case Pop
  with assms show ?thesis by (simp add: worker_pop_fields)
next
  case (Finish out now)
  with assms show ?thesis
    by (simp add: worker_execute_keeps_done worker_execute_next_future)
next
  case (Cancel h')
  with assms show ?thesis by (simp add: settle_keeps_done)
qed

lemma run_keeps_done:
  "is_done (futures st h) \<Longrightarrow> h < next_future st \<Longrightarrow> futures (run evs st) h = futures st h"
proof (induction evs arbitrary: st)
  case Nil
  then show ?case by simp
next
  case (Cons e es)
  from step_keeps_done [OF Cons.prems, of e]
  have a: "futures (step e st) h = futures st h" and b: "h < next_future (step e st)"
    by simp_all
  from Cons.prems(1) a have "is_done (futures (step e st) h)" by simp
  from Cons.IH [OF this b] a show ?case by simp
qed

subsection \<open>The thread-based worker and futures that are already done\<close>

text \<open>
  Claim C10.  In the thread-based limiter, when the worker takes an item from the queue
  (no stop, no pause in force, no item in hand) and the item's future is already done, the
  item only leaves the queue: nothing is executed, the log of invocations and the store
  of futures stay as they are, and the rest of the pass has nothing to finish.  When the
  future is still pending the item becomes the worker's current item and the rest of the
  pass invokes its action.
\<close>

theorem done_future_is_skipped:
  assumes "queue st = (task_fn, future) # rest"
    and "\<not> stopped st" and "pause_until st \<le> now" and "rl_current st = None"
  shows "(is_done (rl_futures st future) \<longrightarrow>
            rl_worker_get now st = st\<lparr>queue := rest\<rparr>
          \<and> rl_worker_finish out now' (rl_worker_get now st) = st\<lparr>queue := rest\<rparr>
          \<and> rl_calls (rl_worker_finish out now' (rl_worker_get now st)) = rl_calls st
          \<and> rl_futures (rl_worker_finish out now' (rl_worker_get now st)) = rl_futures st)
       \<and> (\<not> is_done (rl_futures st future) \<longrightarrow>
            rl_current (rl_worker_get now st) = Some (task_fn, future)
          \<and> rl_calls (rl_worker_finish out now' (rl_worker_get now st)) = rl_calls st @ [task_fn])"
proof (intro conjI impI)
  assume d: "is_done (rl_futures st future)"
  from assms d show g: "rl_worker_get now st = st\<lparr>queue := rest\<rparr>"
    by (simp add: rl_worker_get_def)
  from assms show f: "rl_worker_finish out now' (rl_worker_get now st) = st\<lparr>queue := rest\<rparr>"
    unfolding g by (simp add: rl_worker_finish_def)
  show "rl_calls (rl_worker_finish out now' (rl_worker_get now st)) = rl_calls st"
    unfolding f by simp
  show "rl_futures (rl_worker_finish out now' (rl_worker_get now st)) = rl_futures st"
    unfolding f by simp
next
  assume nd: "\<not> is_done (rl_futures st future)"
  from assms nd
  have g: "rl_worker_get now st = st\<lparr>queue := rest, rl_current := Some (task_fn, future)\<rparr>"
    by (simp add: rl_worker_get_def)
  show "rl_current (rl_worker_get now st) = Some (task_fn, future)"
    unfolding g by simp
  show "rl_calls (rl_worker_finish out now' (rl_worker_get now st)) = rl_calls st @ [task_fn]"
    unfolding g
    by (simp add: rl_worker_finish_fields(3))
qed

theorem done_future_is_skipped_witness:
  "rl_calls (rl_worker_finish (Returned (1::nat)) 2 (rl_worker_get 1
      ((rl_init :: (nat, nat) rate_limiter)\<lparr>queue := [(7, 0)],
          rl_futures := (\<lambda>_. Cancelled), rl_next_future := 1\<rparr>))) = []
   \<and> rl_futures (rl_worker_finish (Returned (1::nat)) 2 (rl_worker_get 1
      ((rl_init :: (nat, nat) rate_limiter)\<lparr>queue := [(7, 0)],
          rl_futures := (\<lambda>_. Cancelled), rl_next_future := 1\<rparr>))) 0 = Cancelled
   \<and> rl_calls (rl_worker_finish (Returned (1::nat)) 2 (rl_worker_get 1
      (snd (rl_execute 7 (rl_init :: (nat, nat) rate_limiter))))) = [7]"
proof -
  let ?a = "(rl_init :: (nat, nat) rate_limiter)\<lparr>queue := [(7, 0)],
          rl_futures := (\<lambda>_. Cancelled), rl_next_future := 1\<rparr>"
  let ?b = "snd (rl_execute 7 (rl_init :: (nat, nat) rate_limiter))"
  have b: "?b = (rl_init :: (nat, nat) rate_limiter)\<lparr>queue := [(7, 0)], rl_next_future := 1\<rparr>"
    by (simp add: rl_execute_def rl_init_def fun_eq_iff)
  have a1: "queue ?a = (7, 0) # []" "\<not> stopped ?a" "pause_until ?a \<le> 1" "rl_current ?a = None"
    by (simp_all add: rl_init_def)
  have b1: "queue ?b = (7, 0) # []" "\<not> stopped ?b" "pause_until ?b \<le> 1" "rl_current ?b = None"
    unfolding b by (simp_all add: rl_init_def)
  have da: "is_done (rl_futures ?a 0)" by simp
  have db: "\<not> is_done (rl_futures ?b 0)" unfolding b by (simp add: rl_init_def)
  from done_future_is_skipped [OF a1, of "Returned 1" 2] da
  have x: "rl_calls (rl_worker_finish (Returned 1) 2 (rl_worker_get 1 ?a)) = rl_calls ?a"
    and y: "rl_futures (rl_worker_finish (Returned 1) 2 (rl_worker_get 1 ?a)) = rl_futures ?a"
    by blast+
  from done_future_is_skipped [OF b1, of "Returned 1" 2] db
  have z: "rl_calls (rl_worker_finish (Returned 1) 2 (rl_worker_get 1 ?b)) = rl_calls ?b @ [7]"
    by blast
  have cb: "rl_calls ?b = []" unfolding b by (simp add: rl_init_def)
  show ?thesis
    unfolding x y z cb by (simp add: rl_init_def)
qed

subsection \<open>Substring test\<close>

lemma starts_with_prefix: "starts_with p s \<longleftrightarrow> prefix p s"
  by (induction p s rule: starts_with.induct) simp_all

lemma contains_sublist: "contains sub s \<longleftrightarrow> sublist sub s"
proof (induction s)
  case Nil
  show ?case by simp
next
  case (Cons c cs)
  show ?case
  proof (cases sub)
    case Nil
    then show ?thesis by simp
  next
    case (Cons a as)
    with Cons.IH show ?thesis
      by (simp add: starts_with_prefix sublist_Cons_right)
  qed
qed

lemma contains_iff: "contains sub s \<longleftrightarrow> (\<exists>p q. s = p @ sub @ q)"
  by (simp add: contains_sublist sublist_def)

subsection \<open>Schedules\<close>

lemma run_append: "run (xs @ ys) st = run ys (run xs st)"
  by (induction xs arbitrary: st) simp_all

lemma retry_round:
  assumes "queue_list st = k # rest" and "queue_map st k = Some (f, h)"
    and "current st = None" and "running st" and "is_flood e"
  shows "run [Pop, Finish (Raised e) now] st =
           st\<lparr>calls := calls st @ [(k, f)], paused_until := now + flood_seconds e\<rparr>"
proof -
  let ?p = "st\<lparr>queue_list := rest, queue_map := (queue_map st)(k := None),
               current := Some (k, f, h)\<rparr>"
  have p: "snd (worker_pop st) = ?p"
    using assms by (simp add: worker_pop_def)
  have cur: "current ?p = Some (k, f, h)" by simp
  have m: "((queue_map st)(k := None))(k \<mapsto> (f, h)) = queue_map st"
    using assms(2) by (simp add: map_upd_triv)
  have "worker_execute (Raised e) now ?p =
          st\<lparr>calls := calls st @ [(k, f)], paused_until := now + flood_seconds e\<rparr>"
    unfolding worker_execute_flood [OF cur assms(5)]
    using assms(1,2,3) by (cases st) (simp add: enqueue_internal_new map_upd_triv)
  with assms(3,4) p show ?thesis by simp
qed

lemma retry_rounds:
  assumes "is_flood e"
  shows "queue_list st = k # rest \<Longrightarrow> queue_map st k = Some (f, h) \<Longrightarrow>
         current st = None \<Longrightarrow> running st \<Longrightarrow>
         calls (run (concat (map (\<lambda>t. [Pop, Finish (Raised e) t]) ts)) st)
           = calls st @ replicate (length ts) (k, f)
       \<and> futures (run (concat (map (\<lambda>t. [Pop, Finish (Raised e) t]) ts)) st) = futures st
       \<and> queue_list (run (concat (map (\<lambda>t. [Pop, Finish (Raised e) t]) ts)) st) = k # rest
       \<and> queue_map (run (concat (map (\<lambda>t. [Pop, Finish (Raised e) t]) ts)) st) k = Some (f, h)"
proof (induction ts arbitrary: st)
  case Nil
  then show ?case by simp
next
  case (Cons t ts)
  let ?s1 = "st\<lparr>calls := calls st @ [(k, f)], paused_until := t + flood_seconds e\<rparr>"
  have r: "run [Pop, Finish (Raised e) t] st = ?s1"
    by (rule retry_round [OF Cons.prems assms])
  have split: "run (concat (map (\<lambda>t. [Pop, Finish (Raised e) t]) (t # ts))) st
      = run (concat (map (\<lambda>t. [Pop, Finish (Raised e) t]) ts)) ?s1"
    using run_append [of "[Pop, Finish (Raised e) t]"
        "concat (map (\<lambda>t. [Pop, Finish (Raised e) t]) ts)" st] r
    by simp
  have "queue_list ?s1 = k # rest" "queue_map ?s1 k = Some (f, h)"
    "current ?s1 = None" "running ?s1"
    using Cons.prems by simp_all
  from Cons.IH [OF this] show ?case
    unfolding split by (simp add: replicate_append_same)
qed

subsection \<open>Classification of failures in the asyncio limiter\<close>

text \<open>
  Claim C9.  In the asyncio limiter an exception counts as a rate violation exactly when
  its lower-cased message contains \<open>flood\<close> or contains \<open>wait\<close>.  For such an exception the
  worker settles nothing and leaves the action waiting under its key, and as long as the
  action keeps failing in this way it is invoked again and again, once per pass, for any
  number of passes at any times \<open>ts\<close>, while the store of futures never changes.  For any other exception the
  pending future is settled with the exception and the queue is left alone, whether or not
  the exception carries a \<^verbatim>\<open>seconds\<close> attribute.
\<close>

theorem flood_classification:
  "(is_flood e \<longleftrightarrow>
      (\<exists>p q. lower (message e) = p @ ''flood'' @ q) \<or> (\<exists>p q. lower (message e) = p @ ''wait'' @ q))
   \<and> (current st = Some (k, f, h) \<and> is_flood e \<longrightarrow>
        futures (worker_execute (Raised e) now st) = futures st
      \<and> (\<exists>h'. queue_map (worker_execute (Raised e) now st) k = Some (f, h')))
   \<and> (current st = Some (k, f, h) \<and> \<not> is_flood e \<and> futures st h = Pending \<longrightarrow>
        futures (worker_execute (Raised e) now st) h = Exception e
      \<and> queue_map (worker_execute (Raised e) now st) = queue_map st
      \<and> queue_list (worker_execute (Raised e) now st) = queue_list st)
   \<and> (queue_list st = k # rest \<and> queue_map st k = Some (f, h) \<and> current st = None
        \<and> running st \<and> is_flood e \<longrightarrow>
        calls (run (concat (map (\<lambda>t. [Pop, Finish (Raised e) t]) ts)) st)
          = calls st @ replicate (length ts) (k, f)
      \<and> futures (run (concat (map (\<lambda>t. [Pop, Finish (Raised e) t]) ts)) st) = futures st
      \<and> queue_map (run (concat (map (\<lambda>t. [Pop, Finish (Raised e) t]) ts)) st) k = Some (f, h))"
proof -
  have a: "is_flood e \<longleftrightarrow>
      (\<exists>p q. lower (message e) = p @ ''flood'' @ q) \<or> (\<exists>p q. lower (message e) = p @ ''wait'' @ q)"
    unfolding is_flood_def Let_def contains_iff ..
  have b: "futures (worker_execute (Raised e) now st) = futures st
      \<and> (\<exists>h'. queue_map (worker_execute (Raised e) now st) k = Some (f, h'))"
    if "current st = Some (k, f, h) \<and> is_flood e"
  proof -
    from that have cur: "current st = Some (k, f, h)" and fl: "is_flood e" by simp_all
    show ?thesis
      unfolding worker_execute_flood [OF cur fl]
      by (simp add: enqueue_internal_fields)
         (simp add: enqueue_internal_def split: option.splits)
  qed
  have c: "futures (worker_execute (Raised e) now st) h = Exception e
      \<and> queue_map (worker_execute (Raised e) now st) = queue_map st
      \<and> queue_list (worker_execute (Raised e) now st) = queue_list st"
    if "current st = Some (k, f, h) \<and> \<not> is_flood e \<and> futures st h = Pending"
  proof -
    from that have cur: "current st = Some (k, f, h)" and fl: "\<not> is_flood e"
      and p: "futures st h = Pending" by simp_all
    show ?thesis
      unfolding worker_execute_error [OF cur fl]
      using p by (simp add: set_exception_def)
  qed
  have d: "calls (run (concat (map (\<lambda>t. [Pop, Finish (Raised e) t]) ts)) st)
          = calls st @ replicate (length ts) (k, f)
      \<and> futures (run (concat (map (\<lambda>t. [Pop, Finish (Raised e) t]) ts)) st) = futures st
      \<and> queue_map (run (concat (map (\<lambda>t. [Pop, Finish (Raised e) t]) ts)) st) k = Some (f, h)"
    if "queue_list st = k # rest \<and> queue_map st k = Some (f, h) \<and> current st = None
        \<and> running st \<and> is_flood e"
    using that retry_rounds [of e st k rest f h ts] by simp
  from a b c d show ?thesis
    by (intro conjI impI) simp_all
qed

theorem flood_classification_witness:
  "is_flood \<lparr>message = ''Timed out while WAITING for a reply'', seconds = None\<rparr>
   \<and> calls (run (concat (map
         (\<lambda>t. [Pop, Finish (Raised \<lparr>message = ''Timed out while WAITING for a reply'', seconds = None\<rparr>) t])
         [1, 40, 80]))
        (snd (enqueue (3::nat) ''k'' (init :: (nat, nat) limiter))))
       = [(''k'', 3), (''k'', 3), (''k'', 3)]
   \<and> futures (run (concat (map
         (\<lambda>t. [Pop, Finish (Raised \<lparr>message = ''Timed out while WAITING for a reply'', seconds = None\<rparr>) t])
         [1, 40, 80]))
        (snd (enqueue (3::nat) ''k'' (init :: (nat, nat) limiter)))) 0 = Pending
   \<and> \<not> is_flood \<lparr>message = ''Too Many Requests: retry after 5'', seconds = Some 5\<rparr>
   \<and> futures (worker_execute
        (Raised \<lparr>message = ''Too Many Requests: retry after 5'', seconds = Some 5\<rparr>) 1
        (snd (worker_pop (snd (enqueue (3::nat) ''k'' (init :: (nat, nat) limiter)))))) 0
       = Exception \<lparr>message = ''Too Many Requests: retry after 5'', seconds = Some 5\<rparr>"
proof -
  let ?e1 = "\<lparr>message = ''Timed out while WAITING for a reply'', seconds = None\<rparr>"
  let ?e2 = "\<lparr>message = ''Too Many Requests: retry after 5'', seconds = Some 5\<rparr>"
  let ?st = "snd (enqueue (3::nat) ''k'' (init :: (nat, nat) limiter))"
  let ?stc = "snd (worker_pop ?st)"
  have st: "?st = \<lparr> queue_list = [''k''], queue_map = [''k'' \<mapsto> (3, 0)], paused_until = 0,
            futures = (\<lambda>_. Pending), next_future = 1, current = None,
            running = True, calls = [] \<rparr>"
    by (simp add: enqueue_def create_future_def enqueue_internal_def init_def fun_eq_iff)
  have stc: "?stc = \<lparr> queue_list = [], queue_map = Map.empty, paused_until = 0,
            futures = (\<lambda>_. Pending), next_future = 1, current = Some (''k'', 3, 0),
            running = True, calls = [] \<rparr>"
    unfolding st by (simp add: worker_pop_def fun_eq_iff)
  have f1: "is_flood ?e1" by code_simp
  have f2: "\<not> is_flood ?e2" by code_simp
  have h1: "queue_list ?st = ''k'' # [] \<and> queue_map ?st ''k'' = Some (3, 0) \<and> current ?st = None
        \<and> running ?st \<and> is_flood ?e1"
    unfolding st using f1 by simp
  have h2: "current ?stc = Some (''k'', 3, 0) \<and> \<not> is_flood ?e2 \<and> futures ?stc 0 = Pending"
    unfolding stc using f2 by simp
  from flood_classification [where e = ?e1 and st = ?st and k = "''k''" and f = 3 and h = 0
      and rest = "[]" and ts = "[1, 40, 80]" and now = 1] h1
  have a: "calls (run (concat (map (\<lambda>t. [Pop, Finish (Raised ?e1) t]) [1, 40, 80])) ?st)
          = calls ?st @ replicate (length [1, 40, 80 :: real]) (''k'', 3)"
    and b: "futures (run (concat (map (\<lambda>t. [Pop, Finish (Raised ?e1) t]) [1, 40, 80])) ?st) = futures ?st"
    by blast+
  from flood_classification [where e = ?e2 and st = ?stc and k = "''k''" and f = 3 and h = 0
      and now = 1] h2
  have c: "futures (worker_execute (Raised ?e2) 1 ?stc) 0 = Exception ?e2"
    by blast
  have cs: "calls ?st = []" and fs: "futures ?st 0 = Pending"
    unfolding st by simp_all
  have r3: "replicate (length [1, 40, 80 :: real]) (''k'', 3::nat) = [(''k'', 3), (''k'', 3), (''k'', 3)]"
    by simp
  show ?thesis
    using f1 f2 a b c cs fs r3 by simp
qed

subsection \<open>The cooldown of a rate violation\<close>

text \<open>
  Claim C7.  For an error classified as a rate violation the cooldown is the duration the
  error carries, and 30 seconds when it carries none.  In the asyncio limiter the
  classification is by the message, and the pause deadline becomes the clock plus the
  \<^verbatim>\<open>seconds\<close> attribute when there is one and the clock plus 30 otherwise.  In the
  thread-based limiter the classification is that the error carries a duration that is not
  zero, and that duration is the cooldown entering the deadline; an error without one is
  no rate violation there and leaves the deadline alone.
\<close>

theorem rate_violation_cooldown:
  "(current st = Some (k, f, h) \<and> is_flood e \<longrightarrow>
      (\<forall>s. seconds e = Some s \<longrightarrow> flood_seconds e = s
           \<and> paused_until (worker_execute (Raised e) now st) = now + s)
    \<and> (seconds e = None \<longrightarrow> flood_seconds e = 30
           \<and> paused_until (worker_execute (Raised e) now st) = now + 30))
   \<and> (rl_current rst = Some (tf, h') \<and> seconds e = Some w \<and> w \<noteq> 0 \<longrightarrow>
      pause_until (rl_worker_finish (Raised e) now rst) = max (pause_until rst) (now + w))
   \<and> (rl_current rst = Some (tf, h') \<and> (seconds e = None \<or> seconds e = Some 0) \<longrightarrow>
      pause_until (rl_worker_finish (Raised e) now rst) = pause_until rst)"
proof -
  have a: "paused_until (worker_execute (Raised e) now st) = now + flood_seconds e"
    if "current st = Some (k, f, h)" "is_flood e"
    unfolding worker_execute_flood [OF that]
    by (simp add: enqueue_internal_fields)
  have b: "pause_until (rl_worker_finish (Raised e) now rst) = max (pause_until rst) (now + w)"
    if "rl_current rst = Some (tf, h')" "seconds e = Some w" "w \<noteq> 0"
    using that by (rule rl_worker_finish_pause(1))
  have c: "pause_until (rl_worker_finish (Raised e) now rst) = pause_until rst"
    if "rl_current rst = Some (tf, h')" "seconds e = None \<or> seconds e = Some 0"
    using that by (rule rl_worker_finish_pause(2))
  show ?thesis
    by (intro conjI impI allI) (simp_all add: a b c flood_seconds_def)
qed

theorem rate_violation_cooldown_witness:
  "paused_until (worker_execute (Raised \<lparr>message = ''FloodWaitError'', seconds = Some 7\<rparr>) 100
      ((init :: (nat, nat) limiter)\<lparr>current := Some (''k'', 3, 0)\<rparr>)) = 107
   \<and> paused_until (worker_execute (Raised \<lparr>message = ''A wait of some seconds is required'', seconds = None\<rparr>) 100
      ((init :: (nat, nat) limiter)\<lparr>current := Some (''k'', 3, 0)\<rparr>)) = 130
   \<and> pause_until (rl_worker_finish (Raised \<lparr>message = ''FloodWaitError'', seconds = Some 7\<rparr>) 100
      ((rl_init :: (nat, nat) rate_limiter)\<lparr>rl_current := Some (3, 0)\<rparr>)) = 107
   \<and> pause_until (rl_worker_finish (Raised \<lparr>message = ''A wait of some seconds is required'', seconds = None\<rparr>) 100
      ((rl_init :: (nat, nat) rate_limiter)\<lparr>rl_current := Some (3, 0)\<rparr>)) = 0"
proof -
  let ?e1 = "\<lparr>message = ''FloodWaitError'', seconds = Some 7\<rparr>"
  let ?e2 = "\<lparr>message = ''A wait of some seconds is required'', seconds = None\<rparr>"
  let ?st = "(init :: (nat, nat) limiter)\<lparr>current := Some (''k'', 3, 0)\<rparr>"
  let ?rst = "(rl_init :: (nat, nat) rate_limiter)\<lparr>rl_current := Some (3, 0)\<rparr>"
  have f1: "is_flood ?e1" by code_simp
  have f2: "is_flood ?e2" by code_simp
  have h1: "current ?st = Some (''k'', 3, 0) \<and> is_flood ?e1" using f1 by simp
  have h2: "current ?st = Some (''k'', 3, 0) \<and> is_flood ?e2" using f2 by simp
  have s1: "seconds ?e1 = Some 7" and s2: "seconds ?e2 = None" by simp_all
  have h3: "rl_current ?rst = Some (3, 0) \<and> seconds ?e1 = Some 7 \<and> (7::real) \<noteq> 0" by simp
  have h4: "rl_current ?rst = Some (3, 0) \<and> (seconds ?e2 = None \<or> seconds ?e2 = Some 0)" by simp
  from rate_violation_cooldown [where e = ?e1 and st = ?st and k = "''k''" and f = 3 and h = 0
      and now = 100 and rst = ?rst and tf = 3 and h' = 0 and w = 7] h1 s1 h3
  have a: "paused_until (worker_execute (Raised ?e1) 100 ?st) = 100 + 7"
    and c: "pause_until (rl_worker_finish (Raised ?e1) 100 ?rst) = max (pause_until ?rst) (100 + 7)"
    by blast+
  from rate_violation_cooldown [where e = ?e2 and st = ?st and k = "''k''" and f = 3 and h = 0
      and now = 100 and rst = ?rst and tf = 3 and h' = 0] h2 s2 h4
  have b: "paused_until (worker_execute (Raised ?e2) 100 ?st) = 100 + 30"
    and d: "pause_until (rl_worker_finish (Raised ?e2) 100 ?rst) = pause_until ?rst"
    by blast+
  have p: "pause_until ?rst = 0" by (simp add: rl_init_def)
  show ?thesis
    unfolding a b c d p by simp
qed

subsection \<open>Futures that nothing refers to\<close>

lemma unreferenced_step:
  assumes q: "\<forall>k f. queue_map st k \<noteq> Some (f, h)"
    and c: "\<forall>k f. current st \<noteq> Some (k, f, h)"
    and n: "h < next_future st"
    and e: "\<not> is_cancel_of h e"
  shows "futures (step e st) h = futures st h
       \<and> (\<forall>k f. queue_map (step e st) k \<noteq> Some (f, h))
       \<and> (\<forall>k f. current (step e st) \<noteq> Some (k, f, h))
       \<and> h < next_future (step e st)"
proof (cases e)
  case (Submit k f)
  have "\<forall>k' f'. queue_map (enqueue_internal f (next_future st) k False
            (snd (create_future st))) k' \<noteq> Some (f', h)"
    using q n
    by (auto simp: enqueue_internal_def create_future_def split: option.splits if_splits)
  with Submit c n show ?thesis
    by (simp add: enqueue_fields) (simp add: enqueue_def create_future_def)
next
  case Pop
  have "(\<forall>k f. queue_map (snd (worker_pop st)) k \<noteq> Some (f, h))
      \<and> (\<forall>k f. current (snd (worker_pop st)) \<noteq> Some (k, f, h))"
    using q c
    by (auto simp: worker_pop_def split: list.splits option.splits if_splits)
  with Pop q c n show ?thesis
    by (simp add: worker_pop_fields)
next
  case (Finish out now)
  show ?thesis
  proof (cases "current st")
    case None
    with Finish q c n show ?thesis by (simp add: worker_execute_idle)
  next
    case (Some item)
    obtain k f h' where cur: "current st = Some (k, f, h')"
      using Some by (cases item) simp
    with c have ne: "h' \<noteq> h" by auto
    show ?thesis
    proof (cases out)
      case (Returned v)
      with Finish q n ne show ?thesis
        by (simp add: worker_execute_Returned [OF cur] settle_other)
    next
      case (Raised x)
      show ?thesis
      proof (cases "is_flood x")
        case True
        have "\<forall>k' f'. queue_map (enqueue_internal f h' k True
            (st\<lparr>current := None, calls := calls st @ [(k, f)],
                paused_until := now + flood_seconds x\<rparr>)) k' \<noteq> Some (f', h)"
          using q ne
          by (auto simp: enqueue_internal_def split: option.splits if_splits)
        with Finish Raised n show ?thesis
          by (simp add: worker_execute_flood [OF cur True] enqueue_internal_fields)
      next
        case False
        with Finish Raised q n ne show ?thesis
          by (simp add: worker_execute_error [OF cur] settle_other)
      qed
    next
      case CancelledError
      with Finish q n show ?thesis
        by (simp add: worker_execute_CancelledError [OF cur])
    qed
  qed
next
  case (Cancel h'')
  with e have "h'' \<noteq> h" by simp
  with Cancel q c n show ?thesis by (simp add: settle_other)
qed

lemma unreferenced_run:
  "\<forall>k f. queue_map st k \<noteq> Some (f, h) \<Longrightarrow> \<forall>k f. current st \<noteq> Some (k, f, h) \<Longrightarrow>
   h < next_future st \<Longrightarrow> \<forall>e \<in> set evs. \<not> is_cancel_of h e \<Longrightarrow>
   futures (run evs st) h = futures st h"
proof (induction evs arbitrary: st)
  case Nil
  show ?case by simp
next
  case (Cons e es)
  from Cons.prems(4) have e: "\<not> is_cancel_of h e" and es: "\<forall>e \<in> set es. \<not> is_cancel_of h e"
    by simp_all
  from unreferenced_step [OF Cons.prems(1,2,3) e]
  have f: "futures (step e st) h = futures st h"
    and q: "\<forall>k f. queue_map (step e st) k \<noteq> Some (f, h)"
    and c: "\<forall>k f. current (step e st) \<noteq> Some (k, f, h)"
    and n: "h < next_future (step e st)"
    by blast+
  from Cons.IH [OF q c n es] f show ?case by simp
qed

subsection \<open>Callers that share a key\<close>

text \<open>
  With two callers under the key \<open>edit:msg1\<close>, the second caller awaits future 1, which
  compaction stores nowhere.  Once the worker has run the surviving action, no schedule in
  which that caller does not cancel its own future ever changes it.
\<close>

lemma compacted_caller_stays_pending:
  assumes "\<forall>e \<in> set evs. \<not> is_cancel_of 1 e"
  shows "futures (run ([Submit ''edit:msg1'' (1::nat), Submit ''edit:msg1'' 2, Pop,
                        Finish (Returned (9::nat)) 0] @ evs) init) 1 = Pending"
proof -
  let ?k = "''edit:msg1''"
  let ?evs = "[Submit ?k (1::nat), Submit ?k 2, Pop, Finish (Returned (9::nat)) 0]"
  let ?fin = "\<lparr> queue_list = [], queue_map = Map.empty, paused_until = 0,
          futures = (\<lambda>_. Pending)(0 := Result (9::nat)), next_future = 2, current = None,
          running = True, calls = [(?k, 2::nat)] \<rparr>"
  let ?s1 = "snd (enqueue (1::nat) ?k (init :: (nat, nat) limiter))"
  have s1: "?s1 = \<lparr> queue_list = [?k], queue_map = [?k \<mapsto> (1, 0)], paused_until = 0,
            futures = (\<lambda>_. Pending), next_future = 1, current = None,
            running = True, calls = [] \<rparr>"
    by (simp add: enqueue_def create_future_def enqueue_internal_def init_def fun_eq_iff)
  have s2: "snd (enqueue (2::nat) ?k ?s1) =
          \<lparr> queue_list = [?k], queue_map = [?k \<mapsto> (2, 0)], paused_until = 0,
            futures = (\<lambda>_. Pending), next_future = 2, current = None,
            running = True, calls = [] \<rparr>"
    unfolding s1
    by (simp add: enqueue_def create_future_def enqueue_internal_def fun_eq_iff)
  have "run ?evs (init :: (nat, nat) limiter)
      = worker_execute (Returned 9) 0 (step Pop (snd (enqueue (2::nat) ?k ?s1)))"
    by (simp only: run.simps step.simps)
  then have r: "run ?evs init = ?fin"
    unfolding s2
    by (simp add: worker_pop_def worker_execute_def set_result_def fun_eq_iff)
  have "futures (run evs ?fin) 1 = futures ?fin 1"
    by (rule unreferenced_run [OF _ _ _ assms]) simp_all
  then show ?thesis
    unfolding run_append r by simp
qed

text \<open>
  Claim C3 says that every caller who submitted under a compacted key sees the outcome of
  the one final invocation, and that each such caller's own future settles with it.  In
  \<^verbatim>\<open>enqueue\<close> each caller creates a future of its own and awaits that future, while
  compaction keeps only the future of the first caller.  With two callers under the key
  \<open>edit:msg1\<close>: the second caller awaits future 1; the worker runs the second action once
  and settles future 0 with its result; future 1 is still pending then, the queue is empty
  and the worker holds nothing, and it is still pending after a later submission under
  the same key has been served as well.
\<close>

theorem compacted_caller_never_settled:
  "fst (enqueue (2::nat) ''edit:msg1'' (snd (enqueue 1 ''edit:msg1'' (init :: (nat, nat) limiter)))) = 1
   \<and> calls (run [Submit ''edit:msg1'' 1, Submit ''edit:msg1'' 2, Pop, Finish (Returned 9) 0]
        (init :: (nat, nat) limiter)) = [(''edit:msg1'', 2)]
   \<and> futures (run [Submit ''edit:msg1'' 1, Submit ''edit:msg1'' 2, Pop, Finish (Returned 9) 0]
        (init :: (nat, nat) limiter)) 0 = Result 9
   \<and> futures (run [Submit ''edit:msg1'' 1, Submit ''edit:msg1'' 2, Pop, Finish (Returned 9) 0]
        (init :: (nat, nat) limiter)) 1 = Pending
   \<and> queue_list (run [Submit ''edit:msg1'' 1, Submit ''edit:msg1'' 2, Pop, Finish (Returned 9) 0]
        (init :: (nat, nat) limiter)) = []
   \<and> current (run [Submit ''edit:msg1'' 1, Submit ''edit:msg1'' 2, Pop, Finish (Returned 9) 0]
        (init :: (nat, nat) limiter)) = None
   \<and> futures (run [Submit ''edit:msg1'' 1, Submit ''edit:msg1'' 2, Pop, Finish (Returned 9) 0,
                   Submit ''edit:msg1'' 3, Pop, Finish (Returned 7) 10]
        (init :: (nat, nat) limiter)) 1 = Pending"
  by code_simp

subsection \<open>Invocations under one key\<close>

lemma held_step:
  assumes "\<not> is_submit_of k e" and "\<not> (is_flood_event e \<and> executing k st \<noteq> [])"
  shows "key_calls k (step e st) @ held k (step e st) = key_calls k st @ held k st"
proof (cases e)
  case (Submit k' f)
  with assms(1) have ne: "k' \<noteq> k" by simp
  have "queue_map (snd (enqueue f k' st)) k = queue_map st k"
    using ne by (simp add: enqueue_def create_future_def enqueue_internal_def split: option.splits)
  with Submit show ?thesis
    by (simp add: key_calls_def held_def executing_def enqueue_fields)
next
  case Pop
  show ?thesis
  proof (cases "running st \<and> current st = None")
    case False
    with Pop show ?thesis by auto
  next
    case True
    then have cur: "current st = None" by simp
    show ?thesis
    proof (cases "queue_list st")
      case Nil
      with Pop show ?thesis by (simp add: worker_pop_def)
    next
      case (Cons k' rest)
      show ?thesis
      proof (cases "queue_map st k'")
        case None
        with Pop Cons show ?thesis
          by (simp add: worker_pop_def key_calls_def held_def executing_def)
      next
        case (Some a)
        obtain f h where a: "a = (f, h)" by (cases a)
        with Pop True Cons Some cur show ?thesis
          by (auto simp: worker_pop_def key_calls_def held_def executing_def)
      qed
    qed
  qed
next
  case (Finish out now)
  show ?thesis
  proof (cases "current st")
    case None
    with Finish show ?thesis by (simp add: worker_execute_idle)
  next
    case (Some item)
    obtain k' f h where cur: "current st = Some (k', f, h)"
      using Some by (cases item) simp
    show ?thesis
    proof (cases out)
      case (Returned v)
      with Finish cur show ?thesis
        by (simp add: worker_execute_Returned [OF cur] key_calls_def held_def executing_def)
    next
      case (Raised x)
      show ?thesis
      proof (cases "is_flood x")
        case False
        with Finish Raised cur show ?thesis
          by (simp add: worker_execute_error [OF cur] key_calls_def held_def executing_def)
      next
        case True
        with Finish Raised assms(2) cur have ne: "k' \<noteq> k"
          by (auto simp: executing_def)
        then show ?thesis
          unfolding Finish Raised step.simps worker_execute_flood [OF cur True]
          using cur
          by (simp add: key_calls_def held_def executing_def enqueue_internal_def
              split: option.splits)
      qed
    next
      case CancelledError
      with Finish cur show ?thesis
        by (simp add: worker_execute_CancelledError [OF cur] key_calls_def held_def executing_def)
    qed
  qed
next
  case (Cancel h)
  then show ?thesis by (simp add: key_calls_def held_def executing_def)
qed

lemma held_flood_step:
  assumes "is_flood_event e" and "executing k st \<noteq> []"
  shows "length (key_calls k (step e st)) + length (held k (step e st))
           \<le> length (key_calls k st) + length (held k st) + 1"
    and "n \<le> length (key_calls k st) \<Longrightarrow>
         set (drop n (key_calls k (step e st))) \<union> set (held k (step e st))
           \<subseteq> set (drop n (key_calls k st)) \<union> set (held k st)"
proof -
  from assms(1) obtain x now where e: "e = Finish (Raised x) now" and fl: "is_flood x"
    by (cases e rule: is_flood_event.cases) simp_all
  from assms(2) obtain f h where cur: "current st = Some (k, f, h)"
    by (auto simp: executing_def split: option.splits if_splits)
  show "length (key_calls k (step e st)) + length (held k (step e st))
           \<le> length (key_calls k st) + length (held k st) + 1"
    unfolding e step.simps worker_execute_flood [OF cur fl]
    using cur
    by (simp add: key_calls_def held_def executing_def enqueue_internal_def
        split: option.splits)
  show "set (drop n (key_calls k (step e st))) \<union> set (held k (step e st))
           \<subseteq> set (drop n (key_calls k st)) \<union> set (held k st)"
    if "n \<le> length (key_calls k st)"
    unfolding e step.simps worker_execute_flood [OF cur fl]
    using cur that
    by (auto simp: key_calls_def held_def executing_def enqueue_internal_def
        split: option.splits)
qed

lemma held_run:
  "\<forall>e \<in> set evs. \<not> is_submit_of k e \<Longrightarrow> key_floods k evs st = 0 \<Longrightarrow>
   key_calls k (run evs st) @ held k (run evs st) = key_calls k st @ held k st"
proof (induction evs arbitrary: st)
  case Nil
  show ?case by simp
next
  case (Cons e es)
  then have e: "\<not> is_submit_of k e" "\<not> (is_flood_event e \<and> executing k st \<noteq> [])"
    and es: "\<forall>e \<in> set es. \<not> is_submit_of k e" "key_floods k es (step e st) = 0"
    by (simp_all split: if_splits)
  from Cons.IH [OF es] held_step [OF e] show ?case by simp
qed

lemma held_length_run:
  "\<forall>e \<in> set evs. \<not> is_submit_of k e \<Longrightarrow>
   length (key_calls k (run evs st)) + length (held k (run evs st))
     \<le> length (key_calls k st) + length (held k st) + key_floods k evs st"
proof (induction evs arbitrary: st)
  case Nil
  show ?case by simp
next
  case (Cons e es)
  then have e: "\<not> is_submit_of k e" and es: "\<forall>e \<in> set es. \<not> is_submit_of k e"
    by simp_all
  have "length (key_calls k (step e st)) + length (held k (step e st))
          \<le> length (key_calls k st) + length (held k st)
             + (if is_flood_event e \<and> executing k st \<noteq> [] then 1 else 0)"
  proof (cases "is_flood_event e \<and> executing k st \<noteq> []")
    case True
    with held_flood_step(1) [of e k st] show ?thesis by simp
  next
    case False
    from held_step [OF e False] have
      "length (key_calls k (step e st) @ held k (step e st))
         = length (key_calls k st @ held k st)"
      by simp
    with False show ?thesis by simp
  qed
  with Cons.IH [OF es, of "step e st"] show ?case by simp
qed

lemma calls_step: "prefix (calls st) (calls (step e st))"
proof (cases e)
  case (Submit k f)
  then show ?thesis by (simp add: enqueue_fields)
next
  case Pop
  then show ?thesis by (simp add: worker_pop_fields)
next
  case (Finish out now)
  then show ?thesis
    by (simp add: worker_execute_def Let_def enqueue_internal_fields
        split: option.splits outcome.splits)
next
  case (Cancel h)
  then show ?thesis by simp
qed

lemma calls_run: "prefix (calls st) (calls (run evs st))"
proof (induction evs arbitrary: st)
  case Nil
  show ?case by simp
next
  case (Cons e es)
  from calls_step [of st e] Cons.IH [of "step e st"] show ?case
    by (auto intro: prefix_order.trans)
qed

lemma key_calls_run: "prefix (key_calls k st) (key_calls k (run evs st))"
  unfolding key_calls_def by (rule filter_mono_prefix [OF calls_run])

lemma held_set_step:
  assumes "\<not> is_submit_of k e" and "n \<le> length (key_calls k st)"
  shows "set (drop n (key_calls k (step e st))) \<union> set (held k (step e st))
           \<subseteq> set (drop n (key_calls k st)) \<union> set (held k st)"
proof (cases "is_flood_event e \<and> executing k st \<noteq> []")
  case True
  with held_flood_step(2) [of e k st n] assms(2) show ?thesis by simp
next
  case False
  have "prefix (key_calls k st) (key_calls k (step e st))"
    unfolding key_calls_def by (rule filter_mono_prefix [OF calls_step])
  then have n: "n \<le> length (key_calls k (step e st))"
    using assms(2) prefix_length_le by fastforce
  from held_step [OF assms(1) False] have
    "drop n (key_calls k (step e st) @ held k (step e st)) = drop n (key_calls k st @ held k st)"
    by simp
  with n assms(2) have
    "drop n (key_calls k (step e st)) @ held k (step e st) = drop n (key_calls k st) @ held k st"
    by simp
  then have "set (drop n (key_calls k (step e st)) @ held k (step e st))
      = set (drop n (key_calls k st) @ held k st)"
    by simp
  then show ?thesis by simp
qed

lemma held_set_run:
  "\<forall>e \<in> set evs. \<not> is_submit_of k e \<Longrightarrow> n \<le> length (key_calls k st) \<Longrightarrow>
   set (drop n (key_calls k (run evs st))) \<union> set (held k (run evs st))
     \<subseteq> set (drop n (key_calls k st)) \<union> set (held k st)"
proof (induction evs arbitrary: st)
  case Nil
  show ?case by simp
next
  case (Cons e es)
  then have e: "\<not> is_submit_of k e" and es: "\<forall>e \<in> set es. \<not> is_submit_of k e"
    by simp_all
  have "prefix (key_calls k st) (key_calls k (step e st))"
    unfolding key_calls_def by (rule filter_mono_prefix [OF calls_step])
  then have n: "n \<le> length (key_calls k (step e st))"
    using Cons.prems(2) prefix_length_le by fastforce
  from held_set_step [OF e Cons.prems(2)] Cons.IH [OF es n] show ?case
    by (simp del: step.simps) blast
qed

lemma submit_same_key:
  "current (step (Submit k f) st) = current st
   \<and> calls (step (Submit k f) st) = calls st
   \<and> (\<exists>h. queue_map (step (Submit k f) st) k = Some (f, h))"
  by (simp add: enqueue_fields)
     (simp add: enqueue_def create_future_def enqueue_internal_def split: option.splits)

lemma burst:
  "fs \<noteq> [] \<Longrightarrow>
   current (run (map (Submit k) fs) st) = current st
   \<and> calls (run (map (Submit k) fs) st) = calls st
   \<and> (\<exists>h. queue_map (run (map (Submit k) fs) st) k = Some (last fs, h))"
proof (induction fs arbitrary: st)
  case Nil
  then show ?case by simp
next
  case (Cons f fs)
  show ?case
  proof (cases "fs = []")
    case True
    with submit_same_key [of k f st] show ?thesis by simp
  next
    case False
    from Cons.IH [OF False, of "step (Submit k f) st"] submit_same_key [of k f st] False
    show ?thesis by simp
  qed
qed

lemma burst_held:
  assumes "fs \<noteq> []"
  shows "held k (run (map (Submit k) fs) st) = executing k st @ [(k, last fs)]"
    and "key_calls k (run (map (Submit k) fs) st) = key_calls k st"
  using burst [OF assms, of k st]
  by (auto simp: held_def executing_def key_calls_def)

subsection \<open>Order of service\<close>

lemma takeWhile_append_subset: "set (takeWhile P xs) \<subseteq> set (takeWhile P (xs @ ys))"
  by (induction xs) auto

lemma takeWhile_all: "b \<notin> set xs \<Longrightarrow> takeWhile (\<lambda>x. x \<noteq> b) xs = xs"
  by (induction xs) auto

lemma worker_execute_busy:
  assumes "current st = Some (k, f, h)"
  shows "calls (worker_execute out now st) = calls st @ [(k, f)]"
    and "current (worker_execute out now st) = None"
    and "queue_list (worker_execute out now st) = queue_list st
       \<or> queue_list (worker_execute out now st) = k # queue_list st"
  using assms
  by (auto simp: worker_execute_def Let_def enqueue_internal_def
      split: option.splits outcome.splits)

lemma started_since_append:
  "n \<le> length (calls st) \<Longrightarrow> calls st' = calls st @ [(k, f)] \<Longrightarrow>
   started_since n st' = started_since n st @ [k]"
  by (simp add: started_since_def)

lemma started_since_same:
  "calls st' = calls st \<Longrightarrow> started_since n st' = started_since n st"
  by (simp add: started_since_def)

lemma served_first_step:
  assumes inv: "queue_inv st" and n: "n \<le> length (calls st)"
    and sf: "served_first a b n st"
  shows "served_first a b n (step e st)"
proof (cases "a \<in> set (takeWhile (\<lambda>x. x \<noteq> b) (started_since n st))")
  case True
  from calls_step [of st e] obtain zs where z: "calls (step e st) = calls st @ zs"
    by (auto simp: prefix_def)
  have "started_since n (step e st) = started_since n st @ map fst zs"
    using n by (simp add: started_since_def z)
  with True takeWhile_append_subset [of "\<lambda>x. x \<noteq> b" "started_since n st" "map fst zs"]
  show ?thesis by (auto simp: served_first_def)
next
  case False
  with sf have nb: "b \<notin> set (started_since n st)"
    and cb: "\<forall>f h. current st \<noteq> Some (b, f, h)"
    and ca: "(\<exists>f h. current st = Some (a, f, h))
              \<or> a \<in> set (takeWhile (\<lambda>x. x \<noteq> b) (queue_list st))"
    by (auto simp: served_first_def)
  show ?thesis
  proof (cases e)
    case (Submit k f)
    have s: "started_since n (step e st) = started_since n st"
      unfolding Submit by (rule started_since_same) (simp add: enqueue_fields)
    have c: "current (step e st) = current st"
      unfolding Submit by (simp add: enqueue_fields)
    have "queue_list (step e st) = queue_list st \<or> queue_list (step e st) = queue_list st @ [k]"
      unfolding Submit
      by (simp add: enqueue_def create_future_def enqueue_internal_def split: option.splits)
    then have "set (takeWhile (\<lambda>x. x \<noteq> b) (queue_list st))
        \<subseteq> set (takeWhile (\<lambda>x. x \<noteq> b) (queue_list (step e st)))"
      using takeWhile_append_subset [of "\<lambda>x. x \<noteq> b" "queue_list st" "[k]"] by auto
    with nb cb ca s c show ?thesis
      unfolding served_first_def by auto
  next
    case Pop
    have s: "started_since n (step e st) = started_since n st"
      unfolding Pop by (rule started_since_same) (simp add: worker_pop_fields)
    show ?thesis
    proof (cases "running st \<and> current st = None")
      case False
      with Pop have "step e st = st" by auto
      with sf show ?thesis by simp
    next
      case True
      with ca have a: "a \<in> set (takeWhile (\<lambda>x. x \<noteq> b) (queue_list st))" by simp
      then obtain x rest where ql: "queue_list st = x # rest"
        by (cases "queue_list st") auto
      with a have xb: "x \<noteq> b" by (auto split: if_splits)
      from inv ql have "x \<in> dom (queue_map st)"
        by (auto simp: queue_inv_def)
      then obtain f h where m: "queue_map st x = Some (f, h)"
        by auto
      have p: "step e st = st\<lparr>queue_list := rest, queue_map := (queue_map st)(x := None),
                           current := Some (x, f, h)\<rparr>"
        using Pop True ql m by (simp add: worker_pop_def)
      have "x = a \<or> a \<in> set (takeWhile (\<lambda>x. x \<noteq> b) rest)"
        using a ql xb by auto
      with nb xb s show ?thesis
        unfolding served_first_def p by auto
    qed
  next
    case (Finish out now)
    show ?thesis
    proof (cases "current st")
      case None
      with Finish have "step e st = st" by (simp add: worker_execute_idle)
      with sf show ?thesis by simp
    next
      case (Some item)
      obtain k f h where cur: "current st = Some (k, f, h)"
        using Some by (cases item) simp
      with cb have kb: "k \<noteq> b" by auto
      note w = worker_execute_busy [OF cur, of out now]
      have s: "started_since n (step e st) = started_since n st @ [k]"
        unfolding Finish step.simps
        by (rule started_since_append [OF n w(1)])
      have c: "current (step e st) = None"
        unfolding Finish step.simps by (rule w(2))
      show ?thesis
      proof (cases "k = a")
        case True
        with nb kb s have "a \<in> set (takeWhile (\<lambda>x. x \<noteq> b) (started_since n (step e st)))"
          by (simp add: takeWhile_all)
        then show ?thesis by (simp add: served_first_def)
      next
        case False
        with ca cur have a: "a \<in> set (takeWhile (\<lambda>x. x \<noteq> b) (queue_list st))" by simp
        have "queue_list (step e st) = queue_list st \<or> queue_list (step e st) = k # queue_list st"
          unfolding Finish step.simps by (rule w(3))
        with a kb have "a \<in> set (takeWhile (\<lambda>x. x \<noteq> b) (queue_list (step e st)))"
          by auto
        with nb kb s c show ?thesis
          unfolding served_first_def by simp
      qed
    qed
  next
    case (Cancel h)
    with sf show ?thesis
      by (simp add: served_first_def started_since_def)
  qed
qed

lemma served_first_run:
  "queue_inv st \<Longrightarrow> n \<le> length (calls st) \<Longrightarrow> served_first a b n st \<Longrightarrow>
   served_first a b n (run evs st)"
proof (induction evs arbitrary: st)
  case Nil
  then show ?case by simp
next
  case (Cons e es)
  have i: "queue_inv (step e st)" by (rule queue_inv_step [OF Cons.prems(1)])
  have l: "n \<le> length (calls (step e st))"
    using calls_step [of st e] Cons.prems(2) prefix_length_le by fastforce
  have s: "served_first a b n (step e st)"
    by (rule served_first_step [OF Cons.prems])
  from Cons.IH [OF i l s] show ?case by simp
qed

subsection \<open>Settlement\<close>

text \<open>
  In the asyncio limiter the test \<^verbatim>\<open>future.done()\<close> and the settling call are one step of
  the event loop, and settling is idempotent there: whatever the second attempt on a
  handle is, the store after it is the store after the first; an attempt on a done handle
  changes nothing; the worker, finishing an item whose future is already done, leaves the
  store as it is; and no later event of any schedule changes a future that is done.
\<close>

lemma asyncio_settle_idempotent:
  "set_result h v2 (set_result h v1 fs) = set_result h v1 fs
   \<and> set_exception h e2 (set_result h v1 fs) = set_result h v1 fs
   \<and> cancel h (set_result h v1 fs) = set_result h v1 fs
   \<and> set_result h v2 (set_exception h e1 fs) = set_exception h e1 fs
   \<and> set_exception h e2 (set_exception h e1 fs) = set_exception h e1 fs
   \<and> cancel h (set_exception h e1 fs) = set_exception h e1 fs
   \<and> is_done (set_result h v1 fs h) \<and> is_done (set_exception h e1 fs h)
   \<and> (is_done (fs h) \<longrightarrow>
        set_result h v1 fs = fs \<and> set_exception h e1 fs = fs \<and> cancel h fs = fs)
   \<and> (current st = Some (k, f, h) \<and> is_done (futures st h) \<longrightarrow>
        futures (worker_execute out now st) = futures st)
   \<and> (is_done (futures st h) \<and> h < next_future st \<longrightarrow>
        futures (run evs st) h = futures st h)"
proof -
  have w: "futures (worker_execute out now st) = futures st"
    if "current st = Some (k, f, h)" "is_done (futures st h)"
    using that
    by (cases out)
       (simp_all add: worker_execute_def Let_def enqueue_internal_fields settle_done)
  show ?thesis
    by (intro conjI impI)
       (simp_all add: settle_done settle_is_done w run_keeps_done)
qed

text \<open>
  In the thread-based limiter a future that is done keeps its outcome as well: the worker
  thread hands no call over for it, and a call that reaches it in the loop changes nothing.
  That call is not skipped, though: \<^verbatim>\<open>set_result\<close> and \<^verbatim>\<open>set_exception\<close> raise.
\<close>

lemma run_call_keeps_done:
  "is_done (fs h) \<Longrightarrow> run_call c fs = Inr fs' \<Longrightarrow> fs' h = fs h"
  by (auto simp: run_call_def settle_keeps_done split: call.splits if_splits)

lemma rl_loop_step_keeps_done:
  "is_done (rl_futures st h) \<Longrightarrow> rl_futures (rl_loop_step st) h = rl_futures st h"
  by (auto simp: rl_loop_step_def dest: run_call_keeps_done split: list.splits sum.splits)

lemma rl_loop_step_raises:
  "loop_calls st = SetResult h v # cs \<or> loop_calls st = SetException h e # cs \<Longrightarrow>
   is_done (rl_futures st h) \<Longrightarrow>
   rl_loop_step st = st\<lparr>loop_calls := cs, loop_errors := loop_errors st @ [InvalidStateError]\<rparr>"
  by (auto simp: rl_loop_step_def run_call_def)

text \<open>
  Claim C8 says that every settle attempt after the first is a no-op.  In the thread-based
  limiter the worker thread tests \<^verbatim>\<open>future.done()\<close> and the event loop makes the call
  later, with no test of its own.  A caller executes an action and the worker runs it to
  its result 9; the worker finds the future pending and hands \<^verbatim>\<open>set_result\<close> to the loop;
  the caller cancels the future before the loop gets to the call.  The call then raises
  \<^verbatim>\<open>InvalidStateError\<close> inside the loop.  The future stays cancelled; without the
  cancellation the same call settles it with 9.
\<close>

theorem settle_attempt_raises_in_loop:
  "loop_calls (rl_run [Execute (3::nat), Get 1, Report (Returned (9::nat)) 2] rl_init)
     = [SetResult 0 9]
   \<and> rl_futures (rl_run [Execute (3::nat), Get 1, Report (Returned (9::nat)) 2] rl_init) 0
     = Pending
   \<and> loop_errors (rl_run [Execute (3::nat), Get 1, Report (Returned (9::nat)) 2,
                            CancelCaller 0, LoopCall] rl_init) = [InvalidStateError]
   \<and> rl_futures (rl_run [Execute (3::nat), Get 1, Report (Returned (9::nat)) 2,
                           CancelCaller 0, LoopCall] rl_init) 0 = Cancelled
   \<and> loop_errors (rl_run [Execute (3::nat), Get 1, Report (Returned (9::nat)) 2,
                            LoopCall] rl_init) = []
   \<and> rl_futures (rl_run [Execute (3::nat), Get 1, Report (Returned (9::nat)) 2,
                           LoopCall] rl_init) 0 = Result 9"
  by code_simp

subsection \<open>What a worker does with a failed action\<close>

text \<open>
  Claim C2 says that a failure classified as a rate violation is never surfaced: the
  handle stays unsettled and the item returns to the front of the queue.  The thread-based
  limiter has no way back into its queue: it raises the pause deadline and then hands
  \<^verbatim>\<open>set_exception\<close> to the event loop like for any other failure, and the loop settles the
  future with the exception.
\<close>

theorem rate_violation_surfaced_counterexample:
  "rl_futures (rl_run [Execute (3::nat), Get 1,
        Report (Raised \<lparr>message = ''FloodWaitError'', seconds = Some 5\<rparr>) 100, LoopCall]
      (rl_init :: (nat, nat) rate_limiter)) 0
     = Exception \<lparr>message = ''FloodWaitError'', seconds = Some 5\<rparr>
   \<and> queue (rl_run [Execute (3::nat), Get 1,
        Report (Raised \<lparr>message = ''FloodWaitError'', seconds = Some 5\<rparr>) 100, LoopCall]
      (rl_init :: (nat, nat) rate_limiter)) = []
   \<and> rl_current (rl_run [Execute (3::nat), Get 1,
        Report (Raised \<lparr>message = ''FloodWaitError'', seconds = Some 5\<rparr>) 100, LoopCall]
      (rl_init :: (nat, nat) rate_limiter)) = None
   \<and> pause_until (rl_run [Execute (3::nat), Get 1,
        Report (Raised \<lparr>message = ''FloodWaitError'', seconds = Some 5\<rparr>) 100, LoopCall]
      (rl_init :: (nat, nat) rate_limiter)) = 105"
  by code_simp

text \<open>
  Claim C2 as amended.  In the asyncio limiter a failure classified as a rate violation
  settles nothing and sets the pause deadline to the clock plus the cooldown; when the key
  has not been submitted again while the action ran, the same key, action and future go
  back to the front of the queue and are what the worker pops next.  A failure that is not
  so classified settles the pending future with the exception and touches neither the
  queue nor the deadline.  In the thread-based limiter every failure, rate violation or
  not, is surfaced: the worker hands \<^verbatim>\<open>set_exception\<close> on the pending future to the event
  loop and settles nothing itself, nothing returns to the queue, and the call, run by the
  loop while the future is still pending, settles it with the exception.  A failure that
  carries a duration other than zero, which is what this limiter takes for a rate
  violation, moves the deadline to the maximum of its value and the clock plus the
  duration; any other failure leaves the deadline as it is.
\<close>

theorem failure_handling:
  "(current st = Some (k, f, h) \<and> is_flood e \<longrightarrow>
        futures (worker_execute (Raised e) now st) = futures st
      \<and> paused_until (worker_execute (Raised e) now st) = now + flood_seconds e
      \<and> (queue_map st k = None \<longrightarrow>
            queue_list (worker_execute (Raised e) now st) = k # queue_list st
          \<and> queue_map (worker_execute (Raised e) now st) = (queue_map st)(k \<mapsto> (f, h))
          \<and> fst (worker_pop (worker_execute (Raised e) now st)) = Popped
          \<and> current (snd (worker_pop (worker_execute (Raised e) now st))) = Some (k, f, h)))
   \<and> (current st = Some (k, f, h) \<and> \<not> is_flood e \<and> futures st h = Pending \<longrightarrow>
        futures (worker_execute (Raised e) now st) = (futures st)(h := Exception e)
      \<and> queue_list (worker_execute (Raised e) now st) = queue_list st
      \<and> queue_map (worker_execute (Raised e) now st) = queue_map st
      \<and> paused_until (worker_execute (Raised e) now st) = paused_until st)
   \<and> (rl_current rst = Some (tf, h) \<and> rl_futures rst h = Pending \<longrightarrow>
        loop_calls (rl_worker_finish (Raised e) now rst) = loop_calls rst @ [SetException h e]
      \<and> rl_futures (rl_worker_finish (Raised e) now rst) = rl_futures rst
      \<and> queue (rl_worker_finish (Raised e) now rst) = queue rst
      \<and> rl_current (rl_worker_finish (Raised e) now rst) = None)
   \<and> (rl_current rst = Some (tf, h) \<and> rl_futures rst h = Pending \<and> loop_calls rst = [] \<longrightarrow>
        rl_futures (rl_loop_step (rl_worker_finish (Raised e) now rst))
          = (rl_futures rst)(h := Exception e)
      \<and> loop_errors (rl_loop_step (rl_worker_finish (Raised e) now rst)) = loop_errors rst)
   \<and> (rl_current rst = Some (tf, h) \<and> seconds e = Some w \<and> w \<noteq> 0 \<longrightarrow>
        pause_until (rl_worker_finish (Raised e) now rst) = max (pause_until rst) (now + w))
   \<and> (rl_current rst = Some (tf, h) \<and> (seconds e = None \<or> seconds e = Some 0) \<longrightarrow>
        pause_until (rl_worker_finish (Raised e) now rst) = pause_until rst)"
proof -
  have a: "futures (worker_execute (Raised e) now st) = futures st
      \<and> paused_until (worker_execute (Raised e) now st) = now + flood_seconds e"
    if "current st = Some (k, f, h)" "is_flood e"
    unfolding worker_execute_flood [OF that]
    by (simp add: enqueue_internal_fields)
  have b: "queue_list (worker_execute (Raised e) now st) = k # queue_list st
          \<and> queue_map (worker_execute (Raised e) now st) = (queue_map st)(k \<mapsto> (f, h))
          \<and> fst (worker_pop (worker_execute (Raised e) now st)) = Popped
          \<and> current (snd (worker_pop (worker_execute (Raised e) now st))) = Some (k, f, h)"
    if "current st = Some (k, f, h)" "is_flood e" "queue_map st k = None"
    unfolding worker_execute_flood [OF that(1,2)]
    using that(3) by (simp add: enqueue_internal_new worker_pop_def)
  have c: "futures (worker_execute (Raised e) now st) = (futures st)(h := Exception e)
      \<and> queue_list (worker_execute (Raised e) now st) = queue_list st
      \<and> queue_map (worker_execute (Raised e) now st) = queue_map st
      \<and> paused_until (worker_execute (Raised e) now st) = paused_until st"
    if "current st = Some (k, f, h)" "\<not> is_flood e" "futures st h = Pending"
    unfolding worker_execute_error [OF that(1,2)]
    using that(3) by (simp add: set_exception_def)
  have d: "loop_calls (rl_worker_finish (Raised e) now rst) = loop_calls rst @ [SetException h e]
      \<and> rl_futures (rl_worker_finish (Raised e) now rst) = rl_futures rst
      \<and> queue (rl_worker_finish (Raised e) now rst) = queue rst
      \<and> rl_current (rl_worker_finish (Raised e) now rst) = None"
    if "rl_current rst = Some (tf, h)" "rl_futures rst h = Pending"
    using that
    by (simp add: rl_worker_finish_fields [OF that(1)] rl_worker_finish_hands_over(2))
  have g: "rl_futures (rl_loop_step (rl_worker_finish (Raised e) now rst))
          = (rl_futures rst)(h := Exception e)
      \<and> loop_errors (rl_loop_step (rl_worker_finish (Raised e) now rst)) = loop_errors rst"
    if "rl_current rst = Some (tf, h)" "rl_futures rst h = Pending" "loop_calls rst = []"
    using that d [OF that(1,2)]
    by (simp add: rl_loop_step_def run_call_def rl_worker_finish_fields(6) [OF that(1)])
  have p: "pause_until (rl_worker_finish (Raised e) now rst) = max (pause_until rst) (now + w)"
    if "rl_current rst = Some (tf, h)" "seconds e = Some w" "w \<noteq> 0"
    using that by (rule rl_worker_finish_pause(1))
  have q: "pause_until (rl_worker_finish (Raised e) now rst) = pause_until rst"
    if "rl_current rst = Some (tf, h)" "seconds e = None \<or> seconds e = Some 0"
    using that by (rule rl_worker_finish_pause(2))
  show ?thesis
    by (intro conjI impI) (simp_all add: a b c d g p q)
qed

theorem failure_handling_witness:
  "futures (worker_execute (Raised \<lparr>message = ''FloodWaitError'', seconds = Some 5\<rparr>) 100
      (snd (worker_pop (snd (enqueue (3::nat) ''k'' (init :: (nat, nat) limiter)))))) 0 = Pending
   \<and> paused_until (worker_execute (Raised \<lparr>message = ''FloodWaitError'', seconds = Some 5\<rparr>) 100
      (snd (worker_pop (snd (enqueue (3::nat) ''k'' (init :: (nat, nat) limiter)))))) = 105
   \<and> queue_list (worker_execute (Raised \<lparr>message = ''FloodWaitError'', seconds = Some 5\<rparr>) 100
      (snd (worker_pop (snd (enqueue (3::nat) ''k'' (init :: (nat, nat) limiter)))))) = [''k'']
   \<and> current (snd (worker_pop (worker_execute
        (Raised \<lparr>message = ''FloodWaitError'', seconds = Some 5\<rparr>) 100
        (snd (worker_pop (snd (enqueue (3::nat) ''k'' (init :: (nat, nat) limiter)))))))) = Some (''k'', 3, 0)
   \<and> futures (worker_execute (Raised \<lparr>message = ''Bad Request'', seconds = None\<rparr>) 100
      (snd (worker_pop (snd (enqueue (3::nat) ''k'' (init :: (nat, nat) limiter)))))) 0
       = Exception \<lparr>message = ''Bad Request'', seconds = None\<rparr>
   \<and> loop_calls (rl_worker_finish (Raised \<lparr>message = ''FloodWaitError'', seconds = Some 5\<rparr>) 100
      (rl_run [Execute (3::nat), Get 1] (rl_init :: (nat, nat) rate_limiter)))
       = [SetException 0 \<lparr>message = ''FloodWaitError'', seconds = Some 5\<rparr>]
   \<and> rl_futures (rl_worker_finish (Raised \<lparr>message = ''FloodWaitError'', seconds = Some 5\<rparr>) 100
      (rl_run [Execute (3::nat), Get 1] (rl_init :: (nat, nat) rate_limiter))) 0 = Pending
   \<and> queue (rl_worker_finish (Raised \<lparr>message = ''FloodWaitError'', seconds = Some 5\<rparr>) 100
      (rl_run [Execute (3::nat), Get 1] (rl_init :: (nat, nat) rate_limiter))) = []
   \<and> rl_futures (rl_loop_step
      (rl_worker_finish (Raised \<lparr>message = ''FloodWaitError'', seconds = Some 5\<rparr>) 100
        (rl_run [Execute (3::nat), Get 1] (rl_init :: (nat, nat) rate_limiter)))) 0
       = Exception \<lparr>message = ''FloodWaitError'', seconds = Some 5\<rparr>
   \<and> pause_until (rl_worker_finish (Raised \<lparr>message = ''FloodWaitError'', seconds = Some 5\<rparr>) 100
      (rl_run [Execute (3::nat), Get 1] (rl_init :: (nat, nat) rate_limiter))) = 105
   \<and> pause_until (rl_worker_finish (Raised \<lparr>message = ''Bad Request'', seconds = None\<rparr>) 100
      (rl_run [Execute (3::nat), Get 1] (rl_init :: (nat, nat) rate_limiter))) = 0"
proof -
  let ?e1 = "\<lparr>message = ''FloodWaitError'', seconds = Some (5::real)\<rparr>"
  let ?e2 = "\<lparr>message = ''Bad Request'', seconds = (None :: real option)\<rparr>"
  let ?st = "snd (worker_pop (snd (enqueue (3::nat) ''k'' (init :: (nat, nat) limiter))))"
  let ?rst = "rl_run [Execute (3::nat), Get 1] (rl_init :: (nat, nat) rate_limiter)"
  have st: "?st = \<lparr> queue_list = [], queue_map = Map.empty, paused_until = 0,
            futures = (\<lambda>_. Pending), next_future = 1, current = Some (''k'', 3, 0),
            running = True, calls = [] \<rparr>"
    by (simp add: worker_pop_def enqueue_def create_future_def enqueue_internal_def init_def
        fun_eq_iff)
  have rst: "?rst = \<lparr> queue = [], pause_until = 0, rl_futures = (\<lambda>_. Pending),
               rl_next_future = 1, rl_current = Some (3, 0), stopped = False, rl_calls = [],
               loop_calls = [], loop_errors = [] \<rparr>"
    by (simp add: rl_worker_get_def rl_execute_def rl_init_def fun_eq_iff)
  have f1: "is_flood ?e1" by code_simp
  have f2: "\<not> is_flood ?e2" by code_simp
  have fs: "flood_seconds ?e1 = 5" by (simp add: flood_seconds_def)
  have h1: "current ?st = Some (''k'', 3, 0) \<and> is_flood ?e1" and h1': "queue_map ?st ''k'' = None"
    and ql: "queue_list ?st = []" and fu: "futures ?st 0 = Pending"
    unfolding st using f1 by simp_all
  have h2: "current ?st = Some (''k'', 3, 0) \<and> \<not> is_flood ?e2 \<and> futures ?st 0 = Pending"
    unfolding st using f2 by simp
  have h3: "rl_current ?rst = Some (3, 0) \<and> rl_futures ?rst 0 = Pending"
    and h4: "rl_current ?rst = Some (3, 0) \<and> rl_futures ?rst 0 = Pending \<and> loop_calls ?rst = []"
    and h5: "rl_current ?rst = Some (3, 0) \<and> seconds ?e1 = Some 5 \<and> (5::real) \<noteq> 0"
    and h6: "rl_current ?rst = Some (3, 0) \<and> (seconds ?e2 = None \<or> seconds ?e2 = Some 0)"
    and rq: "queue ?rst = []" and rlc: "loop_calls ?rst = []" and rp: "pause_until ?rst = 0"
    and rf: "rl_futures ?rst 0 = Pending"
    unfolding rst by simp_all
  from failure_handling [where e = ?e1 and st = ?st and k = "''k''" and f = 3 and h = 0
      and now = 100 and rst = ?rst and tf = 3 and w = 5] h1 h1' h3 h4 h5
  have a: "futures (worker_execute (Raised ?e1) 100 ?st) = futures ?st"
    and b: "paused_until (worker_execute (Raised ?e1) 100 ?st) = 100 + flood_seconds ?e1"
    and c: "queue_list (worker_execute (Raised ?e1) 100 ?st) = ''k'' # queue_list ?st"
    and d: "current (snd (worker_pop (worker_execute (Raised ?e1) 100 ?st))) = Some (''k'', 3, 0)"
    and e: "loop_calls (rl_worker_finish (Raised ?e1) 100 ?rst) = loop_calls ?rst @ [SetException 0 ?e1]"
    and e1: "rl_futures (rl_worker_finish (Raised ?e1) 100 ?rst) = rl_futures ?rst"
    and e2: "queue (rl_worker_finish (Raised ?e1) 100 ?rst) = queue ?rst"
    and e3: "rl_futures (rl_loop_step (rl_worker_finish (Raised ?e1) 100 ?rst))
              = (rl_futures ?rst)(0 := Exception ?e1)"
    and e4: "pause_until (rl_worker_finish (Raised ?e1) 100 ?rst) = max (pause_until ?rst) (100 + 5)"
    by blast+
  from failure_handling [where e = ?e2 and st = ?st and k = "''k''" and f = 3 and h = 0
      and now = 100 and rst = ?rst and tf = 3 and w = 5] h2 h6
  have g: "futures (worker_execute (Raised ?e2) 100 ?st) = (futures ?st)(0 := Exception ?e2)"
    and g1: "pause_until (rl_worker_finish (Raised ?e2) 100 ?rst) = pause_until ?rst"
    by blast+
  show ?thesis
    unfolding a b c d e e1 e2 e3 e4 g g1 fs ql fu rq rlc rp rf by simp
qed

subsection \<open>The bound on invocations after a burst\<close>

text \<open>
  Claim C4 bounds by 2 the invocations that follow a burst of submissions under one key.
  A rate violation makes the worker run the surviving action again: two submissions whose
  survivor fails twice with a flood wait and then succeeds give three invocations.
\<close>

theorem compaction_bound_counterexample:
  "key_calls ''edit:msg1''
     (run [Submit ''edit:msg1'' (1::nat), Submit ''edit:msg1'' 2,
           Pop, Finish (Raised \<lparr>message = ''FloodWaitError'', seconds = Some 1\<rparr>) 0,
           Pop, Finish (Raised \<lparr>message = ''FloodWaitError'', seconds = Some 1\<rparr>) 10,
           Pop, Finish (Returned (9::nat)) 20] init)
     = [(''edit:msg1'', 2), (''edit:msg1'', 2), (''edit:msg1'', 2)]
   \<and> \<not> length (key_calls ''edit:msg1''
     (run [Submit ''edit:msg1'' (1::nat), Submit ''edit:msg1'' 2,
           Pop, Finish (Raised \<lparr>message = ''FloodWaitError'', seconds = Some 1\<rparr>) 0,
           Pop, Finish (Raised \<lparr>message = ''FloodWaitError'', seconds = Some 1\<rparr>) 10,
           Pop, Finish (Returned (9::nat)) 20] init)) \<le> 2"
  by code_simp

text \<open>
  Claim C4 as amended.  After a burst of one or more submissions under one key, and with
  no further submission under that key, whatever else happens (submissions, failures and
  rate violations under other keys included): the invocations logged under the key from
  then on number at most 2 plus the number \<open>key_floods\<close> of those invocations that ended in
  a rate violation, and at most 1 plus that number when the worker was not executing under
  the key when the burst began; every one of them runs the action the worker was executing
  under the key when the burst began or the action submitted last; and when none of them
  ends in a rate violation they are, in this order and at most, the action that was being
  executed, if there was one, and the action submitted last.
\<close>

theorem compaction_bound:
  assumes "fs \<noteq> []"
    and "\<forall>e \<in> set evs. \<not> is_submit_of k e"
  shows "prefix (key_calls k st) (key_calls k (run evs (run (map (Submit k) fs) st)))
       \<and> length (key_calls k (run evs (run (map (Submit k) fs) st)))
            \<le> length (key_calls k st) + length (executing k st) + 1
               + key_floods k evs (run (map (Submit k) fs) st)
       \<and> length (key_calls k (run evs (run (map (Submit k) fs) st)))
            \<le> length (key_calls k st) + 2 + key_floods k evs (run (map (Submit k) fs) st)
       \<and> set (drop (length (key_calls k st)) (key_calls k (run evs (run (map (Submit k) fs) st))))
            \<subseteq> set (executing k st) \<union> {(k, last fs)}
       \<and> (key_floods k evs (run (map (Submit k) fs) st) = 0 \<longrightarrow>
            prefix (key_calls k (run evs (run (map (Submit k) fs) st)))
              (key_calls k st @ executing k st @ [(k, last fs)]))"
proof -
  let ?b = "run (map (Submit k) fs) st"
  have "prefix (key_calls k ?b) (key_calls k (run evs ?b))"
    by (rule key_calls_run)
  then have q: "prefix (key_calls k st) (key_calls k (run evs ?b))"
    by (simp add: burst_held [OF assms(1)])
  have "length (key_calls k (run evs ?b)) + length (held k (run evs ?b))
          \<le> length (key_calls k ?b) + length (held k ?b) + key_floods k evs ?b"
    by (rule held_length_run [OF assms(2)])
  then have l1: "length (key_calls k (run evs ?b))
      \<le> length (key_calls k st) + length (executing k st) + 1 + key_floods k evs ?b"
    by (simp add: burst_held [OF assms(1)])
  have "length (executing k st) \<le> 1"
    by (simp add: executing_def split: option.splits)
  with l1 have l2: "length (key_calls k (run evs ?b))
      \<le> length (key_calls k st) + 2 + key_floods k evs ?b"
    by simp
  have "set (drop (length (key_calls k ?b)) (key_calls k (run evs ?b))) \<union> set (held k (run evs ?b))
          \<subseteq> set (drop (length (key_calls k ?b)) (key_calls k ?b)) \<union> set (held k ?b)"
    by (rule held_set_run [OF assms(2) le_refl])
  then have s: "set (drop (length (key_calls k st)) (key_calls k (run evs ?b)))
      \<subseteq> set (executing k st) \<union> {(k, last fs)}"
    by (simp add: burst_held [OF assms(1)])
  have p: "prefix (key_calls k (run evs ?b)) (key_calls k st @ executing k st @ [(k, last fs)])"
    if "key_floods k evs ?b = 0"
  proof -
    have "key_calls k (run evs ?b) @ held k (run evs ?b) = key_calls k ?b @ held k ?b"
      by (rule held_run [OF assms(2) that])
    then have "key_calls k (run evs ?b) @ held k (run evs ?b)
        = key_calls k st @ executing k st @ [(k, last fs)]"
      by (simp add: burst_held [OF assms(1)])
    then show ?thesis by (metis prefixI)
  qed
  from q l1 l2 s p show ?thesis by (intro conjI impI)
qed

theorem compaction_bound_witness:
  "key_floods ''edit:msg1''
        [Submit ''j'' 7, Finish (Returned 9) 0, Pop, Finish (Returned 9) 10, Pop,
         Finish (Raised \<lparr>message = ''FloodWaitError'', seconds = Some 1\<rparr>) 20, Pop,
         Finish (Returned 9) 30]
        (run (map (Submit ''edit:msg1'') [1, 2, 3, 4])
          (run [Submit ''edit:msg1'' (0::nat), Pop] (init :: (nat, nat) limiter))) = 0
   \<and> prefix (key_calls ''edit:msg1''
        (run [Submit ''j'' 7, Finish (Returned 9) 0, Pop, Finish (Returned 9) 10, Pop,
              Finish (Raised \<lparr>message = ''FloodWaitError'', seconds = Some 1\<rparr>) 20, Pop,
              Finish (Returned 9) 30]
          (run (map (Submit ''edit:msg1'') [1, 2, 3, 4])
            (run [Submit ''edit:msg1'' (0::nat), Pop] (init :: (nat, nat) limiter)))))
      [(''edit:msg1'', 0), (''edit:msg1'', 4)]
   \<and> key_calls ''edit:msg1''
        (run [Submit ''j'' 7, Finish (Returned 9) 0, Pop, Finish (Returned 9) 10, Pop,
              Finish (Raised \<lparr>message = ''FloodWaitError'', seconds = Some 1\<rparr>) 20, Pop,
              Finish (Returned 9) 30]
          (run (map (Submit ''edit:msg1'') [1, 2, 3, 4])
            (run [Submit ''edit:msg1'' (0::nat), Pop] (init :: (nat, nat) limiter))))
      = [(''edit:msg1'', 0), (''edit:msg1'', 4)]
   \<and> calls
        (run [Submit ''j'' 7, Finish (Returned 9) 0, Pop, Finish (Returned 9) 10, Pop,
              Finish (Raised \<lparr>message = ''FloodWaitError'', seconds = Some 1\<rparr>) 20, Pop,
              Finish (Returned 9) 30]
          (run (map (Submit ''edit:msg1'') [1, 2, 3, 4])
            (run [Submit ''edit:msg1'' (0::nat), Pop] (init :: (nat, nat) limiter))))
      = [(''edit:msg1'', 0), (''edit:msg1'', 4), (''j'', 7), (''j'', 7)]
   \<and> key_floods ''edit:msg1''
        [Pop, Finish (Raised \<lparr>message = ''FloodWaitError'', seconds = Some 1\<rparr>) 0,
         Pop, Finish (Raised \<lparr>message = ''FloodWaitError'', seconds = Some 1\<rparr>) 10,
         Pop, Finish (Returned 9) 20]
        (run (map (Submit ''edit:msg1'') [1, 2::nat]) (init :: (nat, nat) limiter)) = 2
   \<and> length (key_calls ''edit:msg1''
        (run [Pop, Finish (Raised \<lparr>message = ''FloodWaitError'', seconds = Some 1\<rparr>) 0,
              Pop, Finish (Raised \<lparr>message = ''FloodWaitError'', seconds = Some 1\<rparr>) 10,
              Pop, Finish (Returned 9) 20]
          (run (map (Submit ''edit:msg1'') [1, 2::nat]) (init :: (nat, nat) limiter)))) \<le> 3
   \<and> key_calls ''edit:msg1''
        (run [Pop, Finish (Raised \<lparr>message = ''FloodWaitError'', seconds = Some 1\<rparr>) 0,
              Pop, Finish (Raised \<lparr>message = ''FloodWaitError'', seconds = Some 1\<rparr>) 10,
              Pop, Finish (Returned 9) 20]
          (run (map (Submit ''edit:msg1'') [1, 2::nat]) (init :: (nat, nat) limiter)))
      = [(''edit:msg1'', 2), (''edit:msg1'', 2), (''edit:msg1'', 2)]"
proof -
  let ?k = "''edit:msg1''"
  let ?fl = "\<lparr>message = ''FloodWaitError'', seconds = Some (1::real)\<rparr>"
  let ?st = "run [Submit ?k (0::nat), Pop] (init :: (nat, nat) limiter)"
  let ?evs = "[Submit ''j'' 7, Finish (Returned (9::nat)) 0, Pop, Finish (Returned 9) 10, Pop,
               Finish (Raised ?fl) 20, Pop, Finish (Returned 9) 30] :: (nat, nat) event list"
  let ?evs2 = "[Pop, Finish (Raised ?fl) 0, Pop, Finish (Raised ?fl) 10,
                Pop, Finish (Returned (9::nat)) 20] :: (nat, nat) event list"
  let ?i = "init :: (nat, nat) limiter"
  have h1: "[1, 2, 3, 4::nat] \<noteq> []" and h1': "[1, 2::nat] \<noteq> []" by simp_all
  have h2: "\<forall>e \<in> set ?evs. \<not> is_submit_of ?k e" by simp
  have h2': "\<forall>e \<in> set ?evs2. \<not> is_submit_of ?k e" by simp
  have a: "key_calls ?k ?st = []" by code_simp
  have b: "executing ?k ?st = [(?k, 0)]" by code_simp
  have a': "key_calls ?k ?i = []" by code_simp
  have b': "executing ?k ?i = []" by code_simp
  have n: "key_floods ?k ?evs (run (map (Submit ?k) [1, 2, 3, 4]) ?st) = 0" by code_simp
  have n': "key_floods ?k ?evs2 (run (map (Submit ?k) [1, 2]) ?i) = 2" by code_simp
  from compaction_bound [OF h1 h2, where st = ?st] n
  have "prefix (key_calls ?k (run ?evs (run (map (Submit ?k) [1, 2, 3, 4]) ?st)))
            (key_calls ?k ?st @ executing ?k ?st @ [(?k, last [1, 2, 3, 4])])"
    by blast
  then have p: "prefix (key_calls ?k (run ?evs (run (map (Submit ?k) [1, 2, 3, 4]) ?st)))
      [(?k, 0), (?k, 4)]"
    unfolding a b by simp
  from compaction_bound [OF h1' h2', where st = ?i]
  have "length (key_calls ?k (run ?evs2 (run (map (Submit ?k) [1, 2]) ?i)))
            \<le> length (key_calls ?k ?i) + length (executing ?k ?i) + 1
               + key_floods ?k ?evs2 (run (map (Submit ?k) [1, 2]) ?i)"
    by blast
  then have l: "length (key_calls ?k (run ?evs2 (run (map (Submit ?k) [1, 2]) ?i))) \<le> 3"
    unfolding a' b' n' by simp
  have v: "key_calls ?k (run ?evs (run (map (Submit ?k) [1, 2, 3, 4]) ?st)) = [(?k, 0), (?k, 4)]"
    by code_simp
  have c: "calls (run ?evs (run (map (Submit ?k) [1, 2, 3, 4]) ?st))
      = [(?k, 0), (?k, 4), (''j'', 7), (''j'', 7)]"
    by code_simp
  have v': "key_calls ?k (run ?evs2 (run (map (Submit ?k) [1, 2]) ?i))
      = [(?k, 2), (?k, 2), (?k, 2)]"
    by code_simp
  from n p v c n' l v' show ?thesis by (intro conjI)
qed

subsection \<open>First come, first served\<close>

text \<open>
  Let key \<open>a\<close> be waiting in the queue at a moment when key \<open>b\<close> is neither waiting nor being
  executed, so that any admission of \<open>b\<close> comes later.  Then under every schedule of
  submissions, pops, outcomes and cancellations, if an action under \<open>b\<close> is started at all,
  an action under \<open>a\<close> is started before the first of them: a normal admission of a new
  key appends it to the order and the worker pops the head of the order.  A key that is
  re-admitted after a flood wait and has not been submitted again meanwhile goes to the
  head, where it is the next item popped.
\<close>

lemma first_admitted_starts_first:
  assumes "queue_inv st" and "a \<in> set (queue_list st)" and "b \<notin> set (queue_list st)"
    and "\<forall>f h. current st \<noteq> Some (b, f, h)"
    and "b \<in> set (started_since (length (calls st)) (run evs st))"
  shows "a \<in> set (takeWhile (\<lambda>x. x \<noteq> b) (started_since (length (calls st)) (run evs st)))"
proof -
  have "served_first a b (length (calls st)) st"
    using assms(2-4) by (simp add: served_first_def started_since_def takeWhile_all)
  from served_first_run [OF assms(1) le_refl this, of evs] assms(5) show ?thesis
    by (auto simp: served_first_def)
qed

lemma normal_admission_appends:
  "queue_map st k = None \<Longrightarrow>
   queue_list (enqueue_internal f h k False st) = queue_list st @ [k]"
  by (simp add: enqueue_internal_new)

lemma pop_takes_head:
  "queue_list st = k # rest \<Longrightarrow> queue_map st k = Some (f, h) \<Longrightarrow>
   worker_pop st = (Popped, st\<lparr>queue_list := rest, queue_map := (queue_map st)(k := None),
                                current := Some (k, f, h)\<rparr>)"
  by (simp add: worker_pop_def)

lemma flood_reinsertion_of_absent_key:
  assumes "current st = Some (k, f, h)" and "is_flood e" and "queue_map st k = None"
  shows "queue_list (worker_execute (Raised e) now st) = k # queue_list st"
    and "current (snd (worker_pop (worker_execute (Raised e) now st))) = Some (k, f, h)"
  unfolding worker_execute_flood [OF assms(1,2)]
  using assms(3) by (simp_all add: enqueue_internal_new worker_pop_def)

lemma flood_reinsertion_of_pending_key:
  assumes "current st = Some (k, f, h)" and "is_flood e" and "queue_map st k = Some (f', h')"
  shows "queue_list (worker_execute (Raised e) now st) = queue_list st"
    and "queue_map (worker_execute (Raised e) now st) = (queue_map st)(k \<mapsto> (f, h'))"
  unfolding worker_execute_flood [OF assms(1,2)]
  using assms(3) by (simp_all add: enqueue_internal_def)

text \<open>
  Claim C5 says that the worker serves distinct keys in the order of their first admission,
  except that an item re-inserted after a flood wait is always placed at the front and
  popped first; the worker's comment at the re-insertion says the same (``Re-queue the
  task at the front'').  \<^verbatim>\<open>_enqueue_internal\<close> looks at \<^verbatim>\<open>front\<close> only for a key that is not
  pending.  Key \<^verbatim>\<open>A\<close> is submitted with action 1 and popped; while action 1 runs, key \<^verbatim>\<open>B\<close>
  is submitted with action 2 and key \<^verbatim>\<open>A\<close> again with action 3; action 1 then fails with a
  flood wait.  The re-insertion finds \<^verbatim>\<open>A\<close> pending, behind \<^verbatim>\<open>B\<close>, and leaves it there: the
  order is \<^verbatim>\<open>B\<close>, \<^verbatim>\<open>A\<close>, and \<^verbatim>\<open>B\<close> is served before the retry.  The entry of \<^verbatim>\<open>A\<close> now holds
  the failed action 1 with the future of the later caller, action 3 is never invoked, and
  the first caller's future 0 is left pending.
\<close>

theorem flood_reinsertion_not_at_front:
  "queue_list (run [Submit ''A'' (1::nat), Pop, Submit ''B'' 2, Submit ''A'' 3,
        Finish (Raised \<lparr>message = ''FloodWaitError'', seconds = Some 5\<rparr>) 0]
      (init :: (nat, nat) limiter)) = [''B'', ''A'']
   \<and> queue_map (run [Submit ''A'' (1::nat), Pop, Submit ''B'' 2, Submit ''A'' 3,
        Finish (Raised \<lparr>message = ''FloodWaitError'', seconds = Some 5\<rparr>) 0]
      (init :: (nat, nat) limiter)) ''A'' = Some (1, 2)
   \<and> current (run [Submit ''A'' (1::nat), Pop, Submit ''B'' 2, Submit ''A'' 3,
        Finish (Raised \<lparr>message = ''FloodWaitError'', seconds = Some 5\<rparr>) 0, Pop]
      (init :: (nat, nat) limiter)) = Some (''B'', 2, 1)
   \<and> calls (run [Submit ''A'' (1::nat), Pop, Submit ''B'' 2, Submit ''A'' 3,
        Finish (Raised \<lparr>message = ''FloodWaitError'', seconds = Some 5\<rparr>) 0,
        Pop, Finish (Returned 9) 10, Pop, Finish (Returned 9) 20]
      (init :: (nat, nat) limiter)) = [(''A'', 1), (''B'', 2), (''A'', 1)]
   \<and> futures (run [Submit ''A'' (1::nat), Pop, Submit ''B'' 2, Submit ''A'' 3,
        Finish (Raised \<lparr>message = ''FloodWaitError'', seconds = Some 5\<rparr>) 0,
        Pop, Finish (Returned 9) 10, Pop, Finish (Returned 9) 20]
      (init :: (nat, nat) limiter)) 0 = Pending
   \<and> queue_list (run [Submit ''A'' (1::nat), Pop, Submit ''B'' 2,
        Finish (Raised \<lparr>message = ''FloodWaitError'', seconds = Some 5\<rparr>) 0]
      (init :: (nat, nat) limiter)) = [''A'', ''B'']"
  by code_simp

subsection \<open>The pause deadline\<close>














end
